theory Spec2Isabelle
  imports Main "HOL-Library.Word"
begin

unbundle bit_operations_syntax

section \<open>Machine arithmetic of the C source\<close>

text \<open>
  C's \<open>/\<close> and \<open>%\<close> on signed integers truncate towards zero; HOL's \<open>div\<close> and
  \<open>mod\<close> on \<open>int\<close> round down. The signed 64-bit quantities of the source
  (\<open>gint64\<close>, \<open>time_t\<close>, \<open>suseconds_t\<close>, \<open>int64_t\<close>) are modelled as \<open>int\<close>.
\<close>

definition c_div :: "int \<Rightarrow> int \<Rightarrow> int" where
  "c_div a b = sgn a * sgn b * (\<bar>a\<bar> div \<bar>b\<bar>)"

definition c_mod :: "int \<Rightarrow> int \<Rightarrow> int" where
  "c_mod a b = a - b * c_div a b"

section \<open>RTP continuity rewriter: \<open>janus_rtp_header_update2\<close>\<close>

text \<open>
  The fields of the RTP header that the rewriter reads and writes, in host order
  (\<open>ntohl\<close>/\<open>htonl\<close> and \<open>ntohs\<close>/\<open>htons\<close> cancel on the way in and out).
\<close>

record janus_rtp_header =
  rtp_type :: "7 word"
  seq_number :: "16 word"
  timestamp :: "32 word"
  ssrc :: "32 word"

text \<open>
  The switching context. Its declaration lives in a header outside this file; the
  fields are the ones \<open>janus_rtp_header_update2\<close> touches, per direction.
\<close>

record janus_rtp_switching_context =
  a_last_ssrc :: "32 word"
  a_last_ts :: "32 word"
  a_base_ts :: "32 word"
  a_base_ts_prev :: "32 word"
  a_prev_ts :: "32 word"
  v_last_ssrc :: "32 word"
  v_last_ts :: "32 word"
  v_base_ts :: "32 word"
  v_base_ts_prev :: "32 word"
  v_prev_ts :: "32 word"
  a_last_seq :: "16 word"
  a_prev_seq :: "16 word"
  a_base_seq :: "16 word"
  a_base_seq_prev :: "16 word"
  v_last_seq :: "16 word"
  v_prev_seq :: "16 word"
  v_base_seq :: "16 word"
  v_base_seq_prev :: "16 word"
  a_seq_reset :: bool
  a_new_ssrc :: bool
  v_seq_reset :: bool
  v_new_ssrc :: bool
  a_last_time :: int
  v_last_time :: int

text \<open>
  \<open>if(ssrc != context->v_last_ssrc) { ... }\<close>. \<open>now\<close> is the value read from
  \<open>janus_get_monotonic_time()\<close> inside the branch.
\<close>

definition video_ssrc_changed ::
  "janus_rtp_header \<Rightarrow> int \<Rightarrow> janus_rtp_switching_context \<Rightarrow> janus_rtp_switching_context" where
  "video_ssrc_changed h now c =
    (let c = c\<lparr>v_last_ssrc := ssrc h\<rparr>;
         c = c\<lparr>v_base_ts_prev := v_last_ts c\<rparr>;
         c = c\<lparr>v_base_ts := timestamp h\<rparr>;
         c = c\<lparr>v_base_seq_prev := v_last_seq c\<rparr>;
         c = c\<lparr>v_base_seq := seq_number h\<rparr>;
         c = (if v_last_time c > 0 then
                (let time_diff = now - v_last_time c;
                     time_diff = c_div (time_diff * 90) 1000;
                     time_diff = (if time_diff = 0 then 1 else time_diff);
                     c = c\<lparr>v_base_ts_prev := v_base_ts_prev c + word_of_int time_diff\<rparr>;
                     c = c\<lparr>v_last_ts := v_last_ts c + word_of_int time_diff\<rparr>
                 in c)
              else c)
     in c\<lparr>v_new_ssrc := True\<rparr>)"

definition audio_ssrc_changed ::
  "janus_rtp_header \<Rightarrow> int \<Rightarrow> janus_rtp_switching_context \<Rightarrow> janus_rtp_switching_context" where
  "audio_ssrc_changed h now c =
    (let c = c\<lparr>a_last_ssrc := ssrc h\<rparr>;
         c = c\<lparr>a_base_ts_prev := a_last_ts c\<rparr>;
         c = c\<lparr>a_base_ts := timestamp h\<rparr>;
         c = c\<lparr>a_base_seq_prev := a_last_seq c\<rparr>;
         c = c\<lparr>a_base_seq := seq_number h\<rparr>;
         c = (if a_last_time c > 0 then
                (let time_diff = now - a_last_time c;
                     akhz = (if rtp_type h = 0 \<or> rtp_type h = 8 \<or> rtp_type h = 9 then 8 else 48);
                     time_diff = c_div (time_diff * akhz) 1000;
                     time_diff = (if time_diff = 0 then 1 else time_diff);
                     c = c\<lparr>a_base_ts_prev := a_base_ts_prev c + word_of_int time_diff\<rparr>;
                     c = c\<lparr>a_prev_ts := a_prev_ts c + word_of_int time_diff\<rparr>;
                     c = c\<lparr>a_last_ts := a_last_ts c + word_of_int time_diff\<rparr>
                 in c)
              else c)
     in c\<lparr>a_new_ssrc := True\<rparr>)"

text \<open>
  \<open>if(context->v_seq_reset) { ... }\<close> of the video path and
  \<open>if(context->a_seq_reset) { ... }\<close> of the audio path. The last assignment of the
  audio block is \<open>context->v_base_ts_prev = context->v_last_ts + 2000\<close> in the source.
\<close>

definition video_seq_reset ::
  "janus_rtp_header \<Rightarrow> janus_rtp_switching_context \<Rightarrow> janus_rtp_switching_context" where
  "video_seq_reset h c =
    (let c = c\<lparr>v_seq_reset := False\<rparr>;
         c = c\<lparr>v_base_seq_prev := v_last_seq c\<rparr>;
         c = c\<lparr>v_base_seq := seq_number h\<rparr>
     in c\<lparr>v_base_ts_prev := v_last_ts c + 2000\<rparr>)"

definition audio_seq_reset ::
  "janus_rtp_header \<Rightarrow> janus_rtp_switching_context \<Rightarrow> janus_rtp_switching_context" where
  "audio_seq_reset h c =
    (let c = c\<lparr>a_seq_reset := False\<rparr>;
         c = c\<lparr>a_base_seq_prev := a_last_seq c\<rparr>;
         c = c\<lparr>a_base_seq := seq_number h\<rparr>
     in c\<lparr>v_base_ts_prev := v_last_ts c + 2000\<rparr>)"

text \<open>
  The body of the function for non-NULL pointers. \<open>t_switch\<close> and \<open>t_done\<close> are the
  two readings of the monotonic clock (inside the SSRC branch and at the end);
  \<open>step\<close> is ignored, as the source's comment says. The result is the rewritten
  header and the updated context.
\<close>

definition rtp_header_update2 ::
  "janus_rtp_header \<Rightarrow> janus_rtp_switching_context \<Rightarrow> bool \<Rightarrow> int \<Rightarrow> int \<Rightarrow> int
     \<Rightarrow> janus_rtp_header \<times> janus_rtp_switching_context" where
  "rtp_header_update2 h c video step t_switch t_done =
    (if video then
       (let c = (if ssrc h \<noteq> v_last_ssrc c then video_ssrc_changed h t_switch c else c);
            c = (if v_seq_reset c then video_seq_reset h c else c);
            c = c\<lparr>v_prev_ts := v_last_ts c\<rparr>;
            c = c\<lparr>v_last_ts := (timestamp h - v_base_ts c) + v_base_ts_prev c\<rparr>;
            c = c\<lparr>v_prev_seq := v_last_seq c\<rparr>;
            c = c\<lparr>v_last_seq := (seq_number h - v_base_seq c) + v_base_seq_prev c + 1\<rparr>;
            h = h\<lparr>timestamp := v_last_ts c\<rparr>;
            h = h\<lparr>seq_number := v_last_seq c\<rparr>
        in (h, c\<lparr>v_last_time := t_done\<rparr>))
     else
       (let c = (if ssrc h \<noteq> a_last_ssrc c then audio_ssrc_changed h t_switch c else c);
            c = (if a_seq_reset c then audio_seq_reset h c else c);
            c = c\<lparr>a_prev_ts := a_last_ts c\<rparr>;
            c = c\<lparr>a_last_ts := (timestamp h - a_base_ts c) + a_base_ts_prev c\<rparr>;
            c = c\<lparr>a_prev_seq := a_last_seq c\<rparr>;
            c = c\<lparr>a_last_seq := (seq_number h - a_base_seq c) + a_base_seq_prev c + 1\<rparr>;
            h = h\<lparr>timestamp := a_last_ts c\<rparr>;
            h = h\<lparr>seq_number := a_last_seq c\<rparr>
        in (h, c\<lparr>a_last_time := t_done\<rparr>)))"

text \<open>
  The function itself: either pointer may be NULL, in which case it returns at once
  and nothing is written.
\<close>

definition janus_rtp_header_update2 ::
  "janus_rtp_header option \<Rightarrow> janus_rtp_switching_context option \<Rightarrow> bool \<Rightarrow> int \<Rightarrow> int \<Rightarrow> int
     \<Rightarrow> janus_rtp_header option \<times> janus_rtp_switching_context option" where
  "janus_rtp_header_update2 header context video step t_switch t_done =
    (case (header, context) of
       (Some h, Some c) \<Rightarrow>
         (let (h', c') = rtp_header_update2 h c video step t_switch t_done in (Some h', Some c'))
     | _ \<Rightarrow> (header, context))"

section \<open>Feeding a playback through the rewriter\<close>

text \<open>
  \<open>janus_play_playout_thread\<close> sets both \<open>seq_reset\<close> flags before its loop, then calls
  the rewriter once per packet, with step 960 for audio and 4500 for video. A playback
  is the list of those calls: the direction, the header read from the file and the two
  clock readings of the call.
\<close>

definition playback_start :: "janus_rtp_switching_context \<Rightarrow> janus_rtp_switching_context" where
  "playback_start c = c\<lparr>a_seq_reset := True, v_seq_reset := True\<rparr>"

fun relay_all ::
  "janus_rtp_switching_context \<Rightarrow> (bool \<times> janus_rtp_header \<times> int \<times> int) list
     \<Rightarrow> (bool \<times> janus_rtp_header) list \<times> janus_rtp_switching_context" where
  "relay_all c [] = ([], c)"
| "relay_all c ((video, h, t_switch, t_done) # ps) =
    (let (h', c') = rtp_header_update2 h c video (if video then 4500 else 960) t_switch t_done;
         (out, c'') = relay_all c' ps
     in ((video, h') # out, c''))"

text \<open>\<open>seq_from s n\<close> is \<open>s, s+1, \<dots>\<close> (\<open>n\<close> numbers, modulo \<open>2^16\<close>).\<close>

fun seq_from :: "16 word \<Rightarrow> nat \<Rightarrow> 16 word list" where
  "seq_from s 0 = []"
| "seq_from s (Suc n) = s # seq_from (s + 1) n"

text \<open>The sequence-number fields of one direction (\<open>True\<close> is video).\<close>

definition dir_last_seq :: "bool \<Rightarrow> janus_rtp_switching_context \<Rightarrow> 16 word" where
  "dir_last_seq v c = (if v then v_last_seq c else a_last_seq c)"

definition dir_base_seq :: "bool \<Rightarrow> janus_rtp_switching_context \<Rightarrow> 16 word" where
  "dir_base_seq v c = (if v then v_base_seq c else a_base_seq c)"

definition dir_base_seq_prev :: "bool \<Rightarrow> janus_rtp_switching_context \<Rightarrow> 16 word" where
  "dir_base_seq_prev v c = (if v then v_base_seq_prev c else a_base_seq_prev c)"

definition dir_last_ssrc :: "bool \<Rightarrow> janus_rtp_switching_context \<Rightarrow> 32 word" where
  "dir_last_ssrc v c = (if v then v_last_ssrc c else a_last_ssrc c)"

definition dir_seq_reset :: "bool \<Rightarrow> janus_rtp_switching_context \<Rightarrow> bool" where
  "dir_seq_reset v c = (if v then v_seq_reset c else a_seq_reset c)"

text \<open>The headers of one direction among the calls of a playback, and among its results.\<close>

definition inputs_of :: "bool \<Rightarrow> (bool \<times> janus_rtp_header \<times> int \<times> int) list \<Rightarrow> janus_rtp_header list" where
  "inputs_of v ps = map (\<lambda>p. fst (snd p)) (filter (\<lambda>p. fst p = v) ps)"

definition outputs_of :: "bool \<Rightarrow> (bool \<times> janus_rtp_header) list \<Rightarrow> janus_rtp_header list" where
  "outputs_of v ps = map snd (filter (\<lambda>p. fst p = v) ps)"

text \<open>An all-zero context and a packet header, for concrete runs.\<close>

definition ctx0 :: janus_rtp_switching_context where
  "ctx0 = \<lparr>a_last_ssrc = 0, a_last_ts = 0, a_base_ts = 0, a_base_ts_prev = 0, a_prev_ts = 0,
     v_last_ssrc = 0, v_last_ts = 0, v_base_ts = 0, v_base_ts_prev = 0, v_prev_ts = 0,
     a_last_seq = 0, a_prev_seq = 0, a_base_seq = 0, a_base_seq_prev = 0,
     v_last_seq = 0, v_prev_seq = 0, v_base_seq = 0, v_base_seq_prev = 0,
     a_seq_reset = False, a_new_ssrc = False, v_seq_reset = False, v_new_ssrc = False,
     a_last_time = 0, v_last_time = 0\<rparr>"

definition pkt :: "32 word \<Rightarrow> 16 word \<Rightarrow> 32 word \<Rightarrow> janus_rtp_header" where
  "pkt s q t = \<lparr>rtp_type = 111, seq_number = q, timestamp = t, ssrc = s\<rparr>"

section \<open>Container parser: \<open>janus_play_get_frames\<close>\<close>

subsection \<open>Files, buffers and byte order\<close>

type_synonym byte = "8 word"

definition byte_of :: "char \<Rightarrow> byte" where
  "byte_of c = of_char c"

text \<open>
  \<open>fread(buf, 1, n, file)\<close> at file position \<open>pos\<close>: the bytes that are there (at
  most \<open>n\<close>) overwrite the front of the buffer, the rest of the buffer keeps what it
  held, and the count of bytes read is returned. The file position advances by
  that count.
\<close>

definition fread :: "byte list \<Rightarrow> nat \<Rightarrow> byte list \<Rightarrow> nat \<Rightarrow> byte list \<times> nat" where
  "fread buf n file pos =
    (let got = take n (drop pos file) in (got @ drop (length got) buf, length got))"

definition be16 :: "byte \<Rightarrow> byte \<Rightarrow> 16 word" where
  "be16 b0 b1 = push_bit 8 (ucast b0) OR ucast b1"

definition be32 :: "byte \<Rightarrow> byte \<Rightarrow> byte \<Rightarrow> byte \<Rightarrow> 32 word" where
  "be32 b0 b1 b2 b3 =
    push_bit 24 (ucast b0) OR push_bit 16 (ucast b1) OR push_bit 8 (ucast b2) OR ucast b3"

text \<open>
  \<open>bytes = fread(&len, sizeof(uint16_t), 1, file); len = ntohs(len);\<close> The two bytes
  of the variable are overwritten by what the file still has; on a short read the
  variable keeps (part of) its old value, laid out as on a little-endian host, and
  \<open>ntohs\<close> reads the two bytes of the variable in network order.
\<close>

definition fread_len :: "16 word \<Rightarrow> byte list \<Rightarrow> nat \<Rightarrow> 16 word \<times> nat" where
  "fread_len v file pos =
    (let (mem, bytes) = fread [ucast v, ucast (drop_bit 8 v)] 2 file pos
     in (be16 (mem ! 0) (mem ! 1), bytes))"

text \<open>The header fields of \<open>(janus_rtp_header *)prebuffer\<close> that the parser reads.\<close>

definition rtp_seq_number :: "byte list \<Rightarrow> 16 word" where
  "rtp_seq_number buf = be16 (buf ! 2) (buf ! 3)"

definition rtp_timestamp :: "byte list \<Rightarrow> 32 word" where
  "rtp_timestamp buf = be32 (buf ! 4) (buf ! 5) (buf ! 6) (buf ! 7)"

text \<open>The C string that starts a buffer: the bytes in front of the first NUL.\<close>

definition c_string :: "byte list \<Rightarrow> byte list" where
  "c_string buf = takeWhile (\<lambda>b. b \<noteq> 0) buf"

subsection \<open>Frame descriptors and the ordered chain\<close>

text \<open>
  The descriptor of one RTP packet of a recording. Its declaration lives in a header
  outside this file; the fields are the ones the parser fills: the 16-bit sequence
  number, the 64-bit timestamp, the length (the \<open>uint16_t len\<close> of the parser) and
  the offset of the packet in the file.
\<close>

record janus_play_frame_packet =
  seq :: "16 word"
  ts :: "64 word"
  len :: "16 word"
  offset :: nat

text \<open>
  The doubly linked chain is kept as the list of its descriptors along \<open>next\<close>:
  \<open>list\<close> is its head, \<open>last\<close> its last element, \<open>prev\<close> of an element the one
  in front of it. The walk \<open>while(tmp) { ... tmp = tmp->prev; }\<close> sees the descriptors from
  \<open>tmp\<close> back to the head as \<open>tmp # earlier\<close>, and has already passed \<open>later\<close>.
  Linking \<open>p\<close> in behind \<open>tmp\<close> gives the chain \<open>rev earlier @ tmp # p # later\<close>;
  a walk that falls off the head (\<open>added\<close> still 0) prepends.
\<close>

fun walk_back ::
  "janus_play_frame_packet list \<Rightarrow> janus_play_frame_packet \<Rightarrow> janus_play_frame_packet list
     \<Rightarrow> janus_play_frame_packet list" where
  "walk_back [] p later = p # later"
| "walk_back (tmp # earlier) p later =
    (if ts tmp < ts p then rev earlier @ tmp # p # later
     else if ts tmp = ts p \<and> seq tmp < seq p \<and> \<bar>uint (seq tmp) - uint (seq p)\<bar> < 10000
       then rev earlier @ tmp # p # later
     else if ts tmp = ts p \<and> seq tmp > seq p \<and> \<bar>uint (seq tmp) - uint (seq p)\<bar> > 10000
       then rev earlier @ tmp # p # later
     else walk_back earlier p (tmp # later))"

definition insert_frame ::
  "janus_play_frame_packet \<Rightarrow> janus_play_frame_packet list \<Rightarrow> janus_play_frame_packet list" where
  "insert_frame p chain = (if chain = [] then [p] else walk_back (rev chain) p [])"

subsection \<open>Pass 1: looking for a timestamp reset\<close>

record scan =
  s_offset :: nat
  s_len :: "16 word"
  s_parsed_header :: bool
  s_first_ts :: "32 word"
  s_last_ts :: "32 word"
  s_reset :: "32 word"
  s_prebuffer :: "byte list"

text \<open>
  How one round of a loop ends: the function returns NULL, a write leaves the 1500
  bytes of \<open>prebuffer\<close> (undefined behaviour in C), or the loop goes on.
\<close>

datatype 'a round = Return_NULL | Overrun | Continue 'a

text \<open>Lines 361 to 377: the bookkeeping on the timestamp \<open>t\<close> of the header just read.\<close>

definition track_timestamp :: "32 word \<Rightarrow> scan \<Rightarrow> scan" where
  "track_timestamp t s =
    (let s = (if s_last_ts s = 0 then
                s\<lparr>s_first_ts := (if t > 1000000 then t - 1000000 else t)\<rparr>
              else if t < s_last_ts s then
                (if s_last_ts s - t > 2000000000 then s\<lparr>s_reset := t\<rparr> else s)
              else if t < s_reset s then s\<lparr>s_reset := t\<rparr>
              else s)
     in s\<lparr>s_last_ts := t\<rparr>)"

text \<open>
  Lines 358 to 379: read 16 bytes at the current file position \<open>pos\<close> as an RTP
  header, track its timestamp, skip the record.
\<close>

definition scan_rtp :: "byte list \<Rightarrow> nat \<Rightarrow> scan \<Rightarrow> scan" where
  "scan_rtp file pos s =
    (let (prebuffer, bytes) = fread (s_prebuffer s) 16 file pos;
         s = track_timestamp (rtp_timestamp prebuffer) (s\<lparr>s_prebuffer := prebuffer\<rparr>)
     in s\<lparr>s_offset := s_offset s + unat (s_len s)\<rparr>)"

text \<open>
  One round of the first loop. \<open>info_ok\<close> stands for the JSON library and the checks
  on the info header (an object with string \<open>t\<close> equal to \<open>a\<close> or \<open>v\<close>, string \<open>c\<close>,
  integers \<open>s\<close> and \<open>u\<close>), applied to the C string in \<open>prebuffer\<close>.
\<close>

definition pass1_round :: "(byte list \<Rightarrow> bool) \<Rightarrow> byte list \<Rightarrow> scan \<Rightarrow> scan round" where
  "pass1_round info_ok file s =
    (let (prebuffer, bytes) = fread (s_prebuffer s) 8 file (s_offset s);
         pos = s_offset s + bytes;
         s = s\<lparr>s_prebuffer := prebuffer\<rparr>
     in if bytes \<noteq> 8 \<or> prebuffer ! 0 \<noteq> byte_of CHR ''M'' then Return_NULL
        else if prebuffer ! 1 = byte_of CHR ''E'' then
          (let s = s\<lparr>s_offset := s_offset s + 8\<rparr>;
               (l, bytes) = fread_len (s_len s) file pos;
               pos = pos + bytes;
               s = s\<lparr>s_len := l\<rparr>;
               s = s\<lparr>s_offset := s_offset s + 2\<rparr>
           in if s_len s = 5 \<and> \<not> s_parsed_header s then
                (let s = s\<lparr>s_parsed_header := True\<rparr>;
                     (prebuffer, bytes) = fread (s_prebuffer s) 5 file pos;
                     s = s\<lparr>s_prebuffer := prebuffer\<rparr>
                 in if prebuffer ! 0 = byte_of CHR ''v'' \<or> prebuffer ! 0 = byte_of CHR ''a''
                    then Continue (s\<lparr>s_offset := s_offset s + unat (s_len s)\<rparr>)
                    else Return_NULL)
              else if s_len s < 12 then Continue (s\<lparr>s_offset := s_offset s + unat (s_len s)\<rparr>)
              else Continue (scan_rtp file pos s))
        else if prebuffer ! 1 = byte_of CHR ''J'' then
          (let s = s\<lparr>s_offset := s_offset s + 8\<rparr>;
               (l, bytes) = fread_len (s_len s) file pos;
               pos = pos + bytes;
               s = s\<lparr>s_len := l\<rparr>;
               s = s\<lparr>s_offset := s_offset s + 2\<rparr>
           in if s_len s > 0 \<and> \<not> s_parsed_header s then
                (if unat (s_len s) \<ge> 1500 then Overrun
                 else
                   (let (prebuffer, bytes) = fread (s_prebuffer s) (unat (s_len s)) file pos;
                        pos = pos + bytes
                    in if int bytes < 0 then Return_NULL
                       else
                         (let s = s\<lparr>s_parsed_header := True\<rparr>;
                              prebuffer = prebuffer[unat (s_len s) := 0];
                              s = s\<lparr>s_prebuffer := prebuffer\<rparr>
                          in if \<not> info_ok (c_string prebuffer) then Return_NULL
                             else Continue (scan_rtp file pos s))))
              else Continue (scan_rtp file pos s))
        else Return_NULL)"

function pass1 :: "(byte list \<Rightarrow> bool) \<Rightarrow> byte list \<Rightarrow> scan \<Rightarrow> scan round" where
  "pass1 info_ok file s =
    (if s_offset s < length file then
       (case pass1_round info_ok file s of
          Continue s' \<Rightarrow> pass1 info_ok file s'
        | Return_NULL \<Rightarrow> Return_NULL
        | Overrun \<Rightarrow> Overrun)
     else Continue s)"
  by pat_completeness auto
termination
  by (relation "measure (\<lambda>(info_ok, file, s). length file - s_offset s)")
     (auto simp: pass1_round_def scan_rtp_def track_timestamp_def Let_def
        split: prod.splits if_splits)

declare pass1.simps [simp del]

subsection \<open>Pass 2: the ordered index\<close>

record index =
  i_offset :: nat
  i_len :: "16 word"
  i_prebuffer :: "byte list"
  i_chain :: "janus_play_frame_packet list"
  i_count :: "16 word"

text \<open>Lines 413 to 427: the 64-bit timestamp of a descriptor.\<close>

definition frame_ts :: "32 word \<Rightarrow> 32 word \<Rightarrow> 32 word \<Rightarrow> 64 word" where
  "frame_ts reset first_ts raw =
    (if reset = 0 then ucast raw
     else if raw > first_ts then ucast raw
     else (let max32 = (0xFFFFFFFF :: 64 word); max32 = max32 + 1 in max32 + ucast raw))"

text \<open>
  One round of the second loop; \<open>Break\<close> is the \<open>break\<close> that follows the RTP header read.
\<close>

datatype 'a step = Break 'a | Next 'a

definition pass2_round :: "32 word \<Rightarrow> 32 word \<Rightarrow> byte list \<Rightarrow> index \<Rightarrow> index step" where
  "pass2_round reset first_ts file s =
    (let (prebuffer, bytes) = fread (i_prebuffer s) 8 file (i_offset s);
         pos = i_offset s + bytes;
         prebuffer = prebuffer[8 := 0];
         s = s\<lparr>i_prebuffer := prebuffer\<rparr>;
         s = s\<lparr>i_offset := i_offset s + 8\<rparr>;
         (l, bytes) = fread_len (i_len s) file pos;
         pos = pos + bytes;
         s = s\<lparr>i_len := l\<rparr>;
         s = s\<lparr>i_offset := i_offset s + 2\<rparr>
     in if i_prebuffer s ! 1 = byte_of CHR ''J'' \<or> i_len s < 12
        then Next (s\<lparr>i_offset := i_offset s + unat (i_len s)\<rparr>)
        else
          (let (prebuffer, bytes) = fread (i_prebuffer s) 16 file pos;
               s = s\<lparr>i_prebuffer := prebuffer\<rparr>
           in if int bytes < 0 then Break s
              else
                (let p = \<lparr>seq = rtp_seq_number prebuffer,
                          ts = frame_ts reset first_ts (rtp_timestamp prebuffer),
                          len = i_len s,
                          offset = i_offset s\<rparr>;
                     s = s\<lparr>i_chain := insert_frame p (i_chain s)\<rparr>;
                     s = s\<lparr>i_offset := i_offset s + unat (i_len s)\<rparr>
                 in Next (s\<lparr>i_count := i_count s + 1\<rparr>))))"

function pass2 :: "32 word \<Rightarrow> 32 word \<Rightarrow> byte list \<Rightarrow> index \<Rightarrow> index" where
  "pass2 reset first_ts file s =
    (if i_offset s < length file then
       (case pass2_round reset first_ts file s of
          Next s' \<Rightarrow> pass2 reset first_ts file s'
        | Break s' \<Rightarrow> s')
     else s)"
  by pat_completeness auto
termination
  by (relation "measure (\<lambda>(reset, first_ts, file, s). length file - i_offset s)")
     (auto simp: pass2_round_def Let_def split: prod.splits if_splits)

declare pass2.simps [simp del]

subsection \<open>The function\<close>

text \<open>
  What a call yields: a pointer (\<open>None\<close> is NULL, \<open>Some chain\<close> the head of a
  non-empty chain), unless the info header overran \<open>prebuffer\<close>.
\<close>

datatype result = Undefined | Returned "janus_play_frame_packet list option"

definition chain_head :: "janus_play_frame_packet list \<Rightarrow> janus_play_frame_packet list option" where
  "chain_head chain = (if chain = [] then None else Some chain)"

text \<open>
  The variables as the first loop finds them, and as the second loop finds them when
  the first has ended in state \<open>s\<close>: \<open>offset = 0\<close>, an empty chain, and \<open>len\<close> and
  \<open>prebuffer\<close> as the first loop left them.
\<close>

definition initial_scan :: scan where
  "initial_scan =
    \<lparr>s_offset = 0, s_len = 0, s_parsed_header = False, s_first_ts = 0, s_last_ts = 0,
     s_reset = 0, s_prebuffer = replicate 1500 0\<rparr>"

definition initial_index :: "scan \<Rightarrow> index" where
  "initial_index s =
    \<lparr>i_offset = 0, i_len = s_len s, i_prebuffer = s_prebuffer s, i_chain = [], i_count = 0\<rparr>"

text \<open>From \<open>fseek(file, 0L, SEEK_END)\<close> to the end, on the content of the opened file.\<close>

definition parse_file :: "(byte list \<Rightarrow> bool) \<Rightarrow> byte list \<Rightarrow> result" where
  "parse_file info_ok file =
    (case pass1 info_ok file initial_scan of
       Return_NULL \<Rightarrow> Returned None
     | Overrun \<Rightarrow> Undefined
     | Continue s \<Rightarrow>
         Returned (chain_head (i_chain (pass2 (s_reset s) (s_first_ts s) file (initial_index s)))))"

text \<open>
  \<open>strstr(filename, ".mjr")\<close> as a test, and the path \<open>g_snprintf\<close> leaves in
  \<open>source[1024]\<close>.
\<close>

fun strstr :: "string \<Rightarrow> string \<Rightarrow> bool" where
  "strstr [] needle = (needle = [])"
| "strstr (c # cs) needle = (take (length needle) (c # cs) = needle \<or> strstr cs needle)"

definition source_path :: "string \<Rightarrow> string \<Rightarrow> string" where
  "source_path dir filename =
    take 1023 (if strstr filename ''.mjr'' then dir @ ''/'' @ filename
               else dir @ ''/'' @ filename @ ''.mjr'')"

text \<open>
  The whole function: \<open>fs\<close> maps the paths that \<open>fopen\<close> can open to their content;
  \<open>dir\<close> and \<open>filename\<close> may be NULL.
\<close>

definition janus_play_get_frames ::
  "(string \<rightharpoonup> byte list) \<Rightarrow> (byte list \<Rightarrow> bool) \<Rightarrow> string option \<Rightarrow> string option \<Rightarrow> result" where
  "janus_play_get_frames fs info_ok dir filename =
    (case (dir, filename) of
       (Some d, Some f) \<Rightarrow>
         (case fs (source_path d f) of
            None \<Rightarrow> Returned None
          | Some file \<Rightarrow> parse_file info_ok file)
     | _ \<Rightarrow> Returned None)"

subsection \<open>Orders on descriptors\<close>

text \<open>
  The wraparound rule on sequence numbers, as the two tests of the insertion walk
  have it, and the order of a chain as stated for it: \<open>ts\<close> rises, or is equal with
  sequence numbers in wraparound order.
\<close>

definition seq_ordered :: "janus_play_frame_packet \<Rightarrow> janus_play_frame_packet \<Rightarrow> bool" where
  "seq_ordered a b \<longleftrightarrow>
     seq a < seq b \<and> \<bar>uint (seq a) - uint (seq b)\<bar> < 10000 \<or>
     seq a > seq b \<and> \<bar>uint (seq a) - uint (seq b)\<bar> > 10000"

definition claimed_order :: "janus_play_frame_packet \<Rightarrow> janus_play_frame_packet \<Rightarrow> bool" where
  "claimed_order a b \<longleftrightarrow> ts a < ts b \<or> ts a = ts b \<and> seq_ordered a b"

text \<open>
  The order the walk establishes: \<open>ts\<close> rises, or is equal and the later descriptor
  does not come first under the wraparound rule.
\<close>

definition chain_order :: "janus_play_frame_packet \<Rightarrow> janus_play_frame_packet \<Rightarrow> bool" where
  "chain_order a b \<longleftrightarrow> ts a < ts b \<or> ts a = ts b \<and> \<not> seq_ordered b a"

text \<open>
  The bytes the playout reads for a descriptor: \<open>len\<close> bytes from \<open>offset\<close>, as far
  as the file has them.
\<close>

definition rtp_bytes :: "byte list \<Rightarrow> janus_play_frame_packet \<Rightarrow> byte list" where
  "rtp_bytes file p = take (unat (len p)) (drop (offset p) file)"

text \<open>
  What the round that starts at offset \<open>start\<close> puts into the descriptor it creates,
  as far as the file reaches.
\<close>

definition indexed_at :: "32 word \<Rightarrow> 32 word \<Rightarrow> byte list \<Rightarrow> nat \<Rightarrow> janus_play_frame_packet \<Rightarrow> bool" where
  "indexed_at reset first_ts file start p \<longleftrightarrow>
     offset p = start + 10 \<and> 12 \<le> unat (len p) \<and>
     (start + 10 \<le> length file \<longrightarrow> len p = be16 (file ! (start + 8)) (file ! (start + 9))) \<and>
     (start + 14 \<le> length file \<longrightarrow> seq p = be16 (file ! (start + 12)) (file ! (start + 13))) \<and>
     (start + 18 \<le> length file \<longrightarrow>
        ts p = frame_ts reset first_ts
                 (be32 (file ! (start + 14)) (file ! (start + 15)) (file ! (start + 16)) (file ! (start + 17))))"

text \<open>
  What holds of the index while pass 2 walks the file: the chain is in order, every
  descriptor was created by a round that started inside the file, ends at or in
  front of the current offset, and reaches past the end of the file only if no
  descriptor starts behind it.
\<close>

definition index_ok :: "32 word \<Rightarrow> 32 word \<Rightarrow> byte list \<Rightarrow> index \<Rightarrow> bool" where
  "index_ok reset first_ts file s \<longleftrightarrow>
     successively chain_order (i_chain s) \<and>
     (\<forall>p \<in> set (i_chain s).
        (\<exists>start < length file. indexed_at reset first_ts file start p) \<and>
        offset p + unat (len p) \<le> i_offset s \<and>
        (offset p + unat (len p) \<le> length file \<or> (\<forall>r \<in> set (i_chain s). offset r \<le> offset p)))"

subsection \<open>Building recordings\<close>

text \<open>
  A frame record is the tag \<open>MEETECHO\<close>, the big-endian length and the RTP packet; a
  legacy recording is the tag, the length 5, \<open>audio\<close> or \<open>video\<close>, and frame records;
  an info record is the tag \<open>MJR00001\<close>, the length and a payload.
\<close>

definition be16_bytes :: "nat \<Rightarrow> byte list" where
  "be16_bytes n = [ucast (drop_bit 8 (word_of_nat n :: 16 word)), ucast (word_of_nat n :: 16 word)]"

definition frame_record :: "byte list \<Rightarrow> byte list" where
  "frame_record rtp = map byte_of ''MEETECHO'' @ be16_bytes (length rtp) @ rtp"

definition info_record :: "byte list \<Rightarrow> byte list" where
  "info_record payload = map byte_of ''MJR00001'' @ be16_bytes (length payload) @ payload"

definition legacy_file :: "string \<Rightarrow> byte list list \<Rightarrow> byte list" where
  "legacy_file kind rtps =
    map byte_of ''MEETECHO'' @ be16_bytes 5 @ map byte_of kind @ concat (map frame_record rtps)"

text \<open>An RTP packet with the given sequence number, timestamp and payload.\<close>

definition rtp_packet :: "16 word \<Rightarrow> 32 word \<Rightarrow> byte list \<Rightarrow> byte list" where
  "rtp_packet sq t payload =
    [0x80, 111, ucast (drop_bit 8 sq), ucast sq,
     ucast (drop_bit 24 t), ucast (drop_bit 16 t), ucast (drop_bit 8 t), ucast t,
     0, 0, 0, 7] @ payload"

subsection \<open>What a recording of frame records should yield\<close>

text \<open>The three variables of the timestamp bookkeeping of pass 1.\<close>

definition tracking :: "scan \<Rightarrow> 32 word \<times> 32 word \<times> 32 word" where
  "tracking s = (s_first_ts s, s_last_ts s, s_reset s)"

text \<open>
  The descriptors of the RTP packets \<open>rtps\<close> whose frame records follow each other
  from offset \<open>start\<close> on, in file order.
\<close>

fun descriptors :: "32 word \<Rightarrow> 32 word \<Rightarrow> nat \<Rightarrow> byte list list \<Rightarrow> janus_play_frame_packet list" where
  "descriptors reset first_ts start [] = []"
| "descriptors reset first_ts start (r # rs) =
     \<lparr>seq = rtp_seq_number r, ts = frame_ts reset first_ts (rtp_timestamp r),
      len = word_of_nat (length r), offset = start + 10\<rparr>
     # descriptors reset first_ts (start + 10 + length r) rs"

text \<open>
  Packets that a frame record can hold and pass 2 indexes, and the two names a
  legacy header can carry.
\<close>

definition rtp_sized :: "byte list list \<Rightarrow> bool" where
  "rtp_sized rtps \<longleftrightarrow> (\<forall>r \<in> set rtps. 12 \<le> length r \<and> length r < 65536)"

definition legacy_kind :: "string \<Rightarrow> bool" where
  "legacy_kind kind \<longleftrightarrow> kind = ''audio'' \<or> kind = ''video''"

text \<open>
  Timestamps that rise, reset once and rise again, within what the heuristics of
  the two passes can tell apart: the packets \<open>pre\<close> rise strictly from a first
  timestamp above \<open>10^6\<close>; the first packet of \<open>post\<close> is nonzero and more than
  \<open>2 * 10^9\<close> below the last of \<open>pre\<close>; the packets \<open>post\<close> rise strictly and stay at
  or below the first timestamp minus \<open>10^6\<close> (the value \<open>first_ts\<close> takes).
\<close>

definition rise_reset_rise :: "byte list list \<Rightarrow> byte list list \<Rightarrow> bool" where
  "rise_reset_rise pre post \<longleftrightarrow>
     pre \<noteq> [] \<and> post \<noteq> [] \<and>
     sorted_wrt (<) (map rtp_timestamp pre) \<and> sorted_wrt (<) (map rtp_timestamp post) \<and>
     1000000 < rtp_timestamp (hd pre) \<and> rtp_timestamp (hd post) \<noteq> 0 \<and>
     rtp_timestamp (hd post) < rtp_timestamp (last pre) \<and>
     2000000000 < rtp_timestamp (last pre) - rtp_timestamp (hd post) \<and>
     (\<forall>r \<in> set post. rtp_timestamp r \<le> rtp_timestamp (hd pre) - 1000000)"

subsection \<open>Recordings for concrete runs\<close>

definition dup_file :: "byte list" where
  "dup_file = frame_record (rtp_packet 1 1000 [1, 2, 3, 4]) @ frame_record (rtp_packet 1 1000 [1, 2, 3, 4])"

definition reordered_file :: "byte list" where
  "reordered_file = legacy_file ''audio''
     [rtp_packet 2 1960 [], rtp_packet 1 1000 [], rtp_packet 65535 1960 [], rtp_packet 3 2920 [9]]"

definition truncated_file :: "byte list" where
  "truncated_file = take 26 (frame_record (rtp_packet 1 1000 (replicate 88 0)))"

definition headless_file :: "byte list" where
  "headless_file = take 10 (frame_record (rtp_packet 1 1000 []))"

text \<open>
  An info header as the recorder writes it: an object whose \<open>t\<close> is the string \<open>a\<close>,
  whose \<open>c\<close> is a string and whose \<open>s\<close> and \<open>u\<close> are integers, which is what lines
  291 to 344 ask of it.
\<close>

definition opus_info :: string where
  "opus_info = ''{\"t\":\"a\",\"c\":\"opus\",\"s\":1,\"u\":2}''"

definition two_info_file :: "byte list" where
  "two_info_file = info_record (map byte_of opus_info) @
     info_record (rtp_packet 0 0xF0000000 [0, 0, 0, 0]) @ frame_record (rtp_packet 1 1000 [])"

definition one_info_file :: "byte list" where
  "one_info_file = info_record (map byte_of opus_info) @ frame_record (rtp_packet 1 1000 [])"

text \<open>
  A check of the info header that accepts \<open>opus_info\<close> and nothing else: it rejects
  \<open>{}\<close> and every text that is not JSON, as the source does, and it is applied to no
  other header below.
\<close>

definition opus_info_only :: "byte list \<Rightarrow> bool" where
  "opus_info_only js = (js = map byte_of opus_info)"

text \<open>
  The text that a round of pass 1 hands to the check of the info header (lines 282
  to 291), when the round is the one that reads the header.
\<close>

definition info_text :: "byte list \<Rightarrow> scan \<Rightarrow> byte list" where
  "info_text file s =
    (let (prebuffer, bytes) = fread (s_prebuffer s) 8 file (s_offset s);
         pos = s_offset s + bytes;
         (l, bytes) = fread_len (s_len s) file pos;
         pos = pos + bytes;
         (prebuffer, bytes) = fread prebuffer (unat l) file pos
     in c_string (prebuffer[unat l := 0]))"

definition refine_file :: "byte list" where
  "refine_file = legacy_file ''audio''
     [rtp_packet 1 3000000000 [], rtp_packet 2 100 [], rtp_packet 3 200 [], rtp_packet 4 50 []]"

definition recordings :: "string \<rightharpoonup> byte list" where
  "recordings = [''/rec/dup.mjr'' \<mapsto> dup_file, ''/rec/reordered.mjr'' \<mapsto> reordered_file,
     ''/rec/truncated.mjr'' \<mapsto> truncated_file, ''/rec/headless.mjr'' \<mapsto> headless_file]"

definition any_info :: "byte list \<Rightarrow> bool" where
  "any_info js = True"

definition wrap_pre :: "byte list list" where
  "wrap_pre = [rtp_packet 1 4294966000 [], rtp_packet 2 4294966960 [1, 2, 3]]"

definition wrap_post :: "byte list list" where
  "wrap_post = [rtp_packet 3 624 [], rtp_packet 4 1584 [4, 5]]"

definition early_start_file :: "byte list" where
  "early_start_file = legacy_file ''audio''
     [rtp_packet 1 500 [], rtp_packet 2 3000000000 [], rtp_packet 3 100 [], rtp_packet 4 500 []]"

definition flat_pre :: "byte list list" where
  "flat_pre = [rtp_packet 1 2999999040 [], rtp_packet 2 3000000000 []]"

definition flat_post :: "byte list list" where
  "flat_post = [rtp_packet 4 200 [], rtp_packet 5 200 [7], rtp_packet 6 1160 []]"

section \<open>Playout scheduler: \<open>janus_play_playout_thread\<close>\<close>

subsection \<open>What the worker sees and does\<close>

record timeval =
  tv_sec :: int
  tv_usec :: int

text \<open>
  The calls the worker makes to its collaborators, in order:
  \<open>lua_push_event(state, id, tr, json)\<close>, \<open>usleep(n)\<close> and
  \<open>relay_rtp(handle, video, buffer, bytes)\<close> with the bytes handed over.
\<close>

datatype action =
    Event "32 word" string string
  | USleep nat
  | Relay bool "byte list"

text \<open>
  The recording handle and the session, whose declarations live in a header outside
  this file: the fields the worker reads and writes. The flags that other threads
  change (\<open>destroyed\<close>, \<open>active\<close>, \<open>stop_playing\<close>) are read through the
  observations below.
\<close>

record janus_play_recording =
  arc_path :: string
  arc_file :: string
  vrc_path :: string
  vrc_file :: string

record janus_lua_session =
  session_id :: "32 word"
  transaction_id :: string
  recording :: "janus_play_recording option"
  recorder :: bool
  aframes :: "janus_play_frame_packet list"
  vframes :: "janus_play_frame_packet list"
  rtpctx :: janus_rtp_switching_context

text \<open>
  What one round of the loop observes: the flags of the loop condition, the wall
  clock read by \<open>gettimeofday\<close> in the audio and in the video branch, and the
  monotonic clock read by the header rewriter (its \<open>n\<close>-th reading in this round).
\<close>

record tick =
  t_destroyed :: bool
  t_active :: bool
  t_rec_destroyed :: bool
  t_stop_playing :: bool
  t_now_audio :: timeval
  t_now_video :: timeval
  t_mono :: "nat \<Rightarrow> int"

text \<open>
  The world of one run of the worker: the files \<open>fopen\<close> can open, whether
  \<open>janus_core\<close> is set, the clock at the start, the observations of the rounds, and
  the value of \<open>stop_playing\<close> read behind the loop.
\<close>

record world =
  w_fs :: "string \<rightharpoonup> byte list"
  w_core :: bool
  w_start :: timeval
  w_ticks :: "tick list"
  w_exit_stop_playing :: bool

text \<open>
  The variables of the loop. \<open>p_audio\<close> and \<open>p_video\<close> are the positions of the
  pointers \<open>audio\<close> and \<open>video\<close> in their chains: position 0 is the head of the
  chain, a position at the length of the chain is NULL.
\<close>

record playout =
  p_audio :: nat
  p_video :: nat
  asent :: bool
  vsent :: bool
  abefore :: timeval
  vbefore :: timeval
  p_buffer :: "byte list"
  p_ctx :: janus_rtp_switching_context

text \<open>
  How a run ends as far as the observations reach: the loop is still going when
  they run out, a read leaves the 1500 bytes of \<open>buffer\<close>, or the worker returns.
\<close>

datatype 'a run = Running | Buffer_Overrun | Done 'a

subsection \<open>Sending one packet\<close>

text \<open>\<open>(janus_rtp_header *)buffer\<close> read, and written back by the rewriter.\<close>

definition header_of :: "byte list \<Rightarrow> janus_rtp_header" where
  "header_of buf =
    \<lparr>rtp_type = ucast (buf ! 1 AND 0x7F),
     seq_number = be16 (buf ! 2) (buf ! 3),
     timestamp = be32 (buf ! 4) (buf ! 5) (buf ! 6) (buf ! 7),
     ssrc = be32 (buf ! 8) (buf ! 9) (buf ! 10) (buf ! 11)\<rparr>"

definition store_header :: "byte list \<Rightarrow> janus_rtp_header \<Rightarrow> byte list" where
  "store_header buf h =
    buf[2 := ucast (drop_bit 8 (seq_number h)), 3 := ucast (seq_number h),
        4 := ucast (drop_bit 24 (timestamp h)), 5 := ucast (drop_bit 16 (timestamp h)),
        6 := ucast (drop_bit 8 (timestamp h)), 7 := ucast (timestamp h)]"

text \<open>
  \<open>fseek\<close>, \<open>fread\<close> of \<open>len\<close> bytes into \<open>buffer\<close>, the header rewrite with step 960
  or 4500, and \<open>relay_rtp\<close> when \<open>janus_core\<close> is set. A short read only logs a
  warning. \<open>None\<close>: more than the 1500 bytes of \<open>buffer\<close> were read.
\<close>

definition send_packet ::
  "bool \<Rightarrow> byte list \<Rightarrow> bool \<Rightarrow> janus_play_frame_packet \<Rightarrow> int \<Rightarrow> int
     \<Rightarrow> byte list \<times> janus_rtp_switching_context
     \<Rightarrow> ((byte list \<times> janus_rtp_switching_context) \<times> action list) option" where
  "send_packet core file video p t_switch t_done bc =
    (let (buffer, bytes) = fread (fst bc) (unat (len p)) file (offset p)
     in if bytes > 1500 then None
        else
          (let (h, ctx) = rtp_header_update2 (header_of buffer) (snd bc) video
                            (if video then 4500 else 960) t_switch t_done;
               buffer = store_header buffer h
           in Some ((buffer, ctx), if core then [Relay video (take bytes buffer)] else [])))"

subsection \<open>Pacing\<close>

text \<open>
  \<open>ts_diff = p->ts - p->prev->ts; ts_diff = (ts_diff*1000)/khz;\<close> with the
  difference of the two unsigned 64-bit values stored in an \<open>int64_t\<close>.
\<close>

definition due_interval :: "janus_play_frame_packet \<Rightarrow> janus_play_frame_packet \<Rightarrow> int \<Rightarrow> int" where
  "due_interval p prev khz = c_div (sint (ts p - ts prev) * 1000) khz"

text \<open>The time passed since the reference time, in microseconds (lines 644 to 650).\<close>

definition passed_since :: "timeval \<Rightarrow> timeval \<Rightarrow> int" where
  "passed_since now before =
    (let d_s = tv_sec now - tv_sec before;
         d_us = tv_usec now - tv_usec before;
         (d_s, d_us) = (if d_us < 0 then (d_s - 1, d_us + 1000000) else (d_s, d_us))
     in d_s * 1000000 + d_us)"

text \<open>Lines 654 to 663 (audio) and 721 to 730 (video): "Update the reference time".\<close>

definition advance_reference :: "timeval \<Rightarrow> int \<Rightarrow> timeval" where
  "advance_reference before ts_diff =
    (let before = before\<lparr>tv_usec := tv_usec before + c_mod ts_diff 1000000\<rparr>;
         before = (if tv_usec before > 1000000
                   then (let before = before\<lparr>tv_sec := tv_sec before + 1\<rparr>
                         in before\<lparr>tv_usec := tv_usec before - 1000000\<rparr>)
                   else before);
         before = (if c_div ts_diff 1000000 > 0
                   then (let before = before\<lparr>tv_sec := tv_sec before + c_div ts_diff 1000000\<rparr>
                         in before\<lparr>tv_usec := tv_usec before - c_div ts_diff 1000000\<rparr>)
                   else before)
     in before)"

text \<open>The microseconds a \<open>timeval\<close> stands for.\<close>

definition micros :: "timeval \<Rightarrow> int" where
  "micros t = tv_sec t * 1000000 + tv_usec t"

subsection \<open>One round of the loop\<close>

text \<open>The audio branch \<open>if(audio) { ... }\<close>, with \<open>akhz = 48\<close>.\<close>

definition playout_audio ::
  "bool \<Rightarrow> byte list \<Rightarrow> janus_play_frame_packet list \<Rightarrow> tick \<Rightarrow> playout
     \<Rightarrow> (playout \<times> action list) option" where
  "playout_audio core afile frames tk st =
    (if p_audio st < length frames then
       (let audio = frames ! p_audio st in
        if p_audio st = 0 then
          (case send_packet core afile False audio (t_mono tk 0) (t_mono tk 1) (p_buffer st, p_ctx st) of
             None \<Rightarrow> None
           | Some ((buffer, ctx), acts) \<Rightarrow>
               Some (st\<lparr>p_buffer := buffer, p_ctx := ctx, abefore := t_now_audio tk,
                        asent := True, p_audio := p_audio st + 1\<rparr>, acts))
        else
          (let ts_diff = due_interval audio (frames ! (p_audio st - 1)) 48;
               passed = passed_since (t_now_audio tk) (abefore st)
           in if passed < ts_diff - 5000 then Some (st\<lparr>asent := False\<rparr>, [])
              else
                (let st = st\<lparr>abefore := advance_reference (abefore st) ts_diff\<rparr> in
                 case send_packet core afile False audio (t_mono tk 0) (t_mono tk 1) (p_buffer st, p_ctx st) of
                   None \<Rightarrow> None
                 | Some ((buffer, ctx), acts) \<Rightarrow>
                     Some (st\<lparr>p_buffer := buffer, p_ctx := ctx, asent := True,
                              p_audio := p_audio st + 1\<rparr>, acts))))
     else Some (st, []))"

text \<open>
  \<open>while(video && video->ts == ts) { ... video = video->next; }\<close> on the descriptors
  from \<open>video\<close> on: what it leaves in \<open>buffer\<close> and the context, its calls, and how
  many packets it sent. \<open>k\<close> counts the clock readings of the round.
\<close>

fun video_burst ::
  "bool \<Rightarrow> byte list \<Rightarrow> 64 word \<Rightarrow> tick \<Rightarrow> nat \<Rightarrow> janus_play_frame_packet list
     \<Rightarrow> byte list \<times> janus_rtp_switching_context
     \<Rightarrow> ((byte list \<times> janus_rtp_switching_context) \<times> action list \<times> nat) option" where
  "video_burst core vfile ts0 tk k [] bc = Some (bc, [], 0)"
| "video_burst core vfile ts0 tk k (video # rest) bc =
    (if ts video = ts0 then
       (case send_packet core vfile True video (t_mono tk k) (t_mono tk (k + 1)) bc of
          None \<Rightarrow> None
        | Some (bc, acts) \<Rightarrow>
            (case video_burst core vfile ts0 tk (k + 2) rest bc of
               None \<Rightarrow> None
             | Some (bc, further, n) \<Rightarrow> Some (bc, acts @ further, n + 1)))
     else Some (bc, [], 0))"

text \<open>The video branch \<open>if(video) { ... }\<close>, with \<open>vkhz = 90\<close>.\<close>

definition playout_video ::
  "bool \<Rightarrow> byte list \<Rightarrow> janus_play_frame_packet list \<Rightarrow> tick \<Rightarrow> playout
     \<Rightarrow> (playout \<times> action list) option" where
  "playout_video core vfile frames tk st =
    (if p_video st < length frames then
       (let video = frames ! p_video st in
        if p_video st = 0 then
          (case video_burst core vfile (ts video) tk 2 (drop (p_video st) frames) (p_buffer st, p_ctx st) of
             None \<Rightarrow> None
           | Some ((buffer, ctx), acts, n) \<Rightarrow>
               Some (st\<lparr>p_buffer := buffer, p_ctx := ctx, p_video := p_video st + n,
                        vsent := True, vbefore := t_now_video tk\<rparr>, acts))
        else
          (let ts_diff = due_interval video (frames ! (p_video st - 1)) 90;
               passed = passed_since (t_now_video tk) (vbefore st)
           in if passed < ts_diff - 5000 then Some (st\<lparr>vsent := False\<rparr>, [])
              else
                (let st = st\<lparr>vbefore := advance_reference (vbefore st) ts_diff\<rparr> in
                 case video_burst core vfile (ts video) tk 2 (drop (p_video st) frames) (p_buffer st, p_ctx st) of
                   None \<Rightarrow> None
                 | Some ((buffer, ctx), acts, n) \<Rightarrow>
                     Some (st\<lparr>p_buffer := buffer, p_ctx := ctx, p_video := p_video st + n,
                              vsent := True\<rparr>, acts))))
     else Some (st, []))"

text \<open>The loop condition and the loop body.\<close>

definition playout_goes_on ::
  "janus_play_frame_packet list \<Rightarrow> janus_play_frame_packet list \<Rightarrow> tick \<Rightarrow> playout \<Rightarrow> bool" where
  "playout_goes_on af vf tk st \<longleftrightarrow>
     \<not> t_destroyed tk \<and> t_active tk \<and> \<not> t_rec_destroyed tk \<and>
     (p_audio st < length af \<or> p_video st < length vf) \<and> t_stop_playing tk = False"

definition playout_round ::
  "bool \<Rightarrow> byte list \<Rightarrow> byte list \<Rightarrow> janus_play_frame_packet list \<Rightarrow> janus_play_frame_packet list
     \<Rightarrow> tick \<Rightarrow> playout \<Rightarrow> (playout \<times> action list) option" where
  "playout_round core afile vfile af vf tk st =
    (let slept = (if \<not> asent st \<and> \<not> vsent st then [USleep 5000] else []);
         st = st\<lparr>asent := False\<rparr>;
         st = st\<lparr>vsent := False\<rparr>
     in case playout_audio core afile af tk st of
          None \<Rightarrow> None
        | Some (st, audio_acts) \<Rightarrow>
            (case playout_video core vfile vf tk st of
               None \<Rightarrow> None
             | Some (st, video_acts) \<Rightarrow> Some (st, slept @ audio_acts @ video_acts)))"

fun playout_loop ::
  "bool \<Rightarrow> byte list \<Rightarrow> byte list \<Rightarrow> janus_play_frame_packet list \<Rightarrow> janus_play_frame_packet list
     \<Rightarrow> tick list \<Rightarrow> playout \<Rightarrow> (playout \<times> action list) run" where
  "playout_loop core afile vfile af vf [] st = Running"
| "playout_loop core afile vfile af vf (tk # ticks) st =
    (if playout_goes_on af vf tk st then
       (case playout_round core afile vfile af vf tk st of
          None \<Rightarrow> Buffer_Overrun
        | Some (st, acts) \<Rightarrow>
            (case playout_loop core afile vfile af vf ticks st of
               Done (st, further) \<Rightarrow> Done (st, acts @ further)
             | Running \<Rightarrow> Running
             | Buffer_Overrun \<Rightarrow> Buffer_Overrun))
     else Done (st, []))"

subsection \<open>The worker\<close>

text \<open>The three payloads, as the string literals of the source.\<close>

definition json_start :: string where
  "json_start = ''{\"play\": \"start\"}''"

definition json_stopped :: string where
  "json_stopped = ''{\"play\": \"stopped\"}''"

definition json_ended :: string where
  "json_ended = ''{\"play\": \"ended\"}''"

text \<open>
  \<open>fopen\<close> of a track that has frames; a track without frames has no file (NULL),
  which reads as the empty file here since nothing is ever read from it.
\<close>

definition open_track ::
  "(string \<rightharpoonup> byte list) \<Rightarrow> janus_play_frame_packet list \<Rightarrow> string \<Rightarrow> string \<Rightarrow> byte list option" where
  "open_track fs frames path file =
    (if frames \<noteq> [] then fs (source_path path file) else Some [])"

text \<open>
  The worker. It returns the session as it leaves it and its calls in order. The
  reference counts and the thread handle are left out.
\<close>

definition janus_play_playout_thread ::
  "world \<Rightarrow> janus_lua_session option \<Rightarrow> (janus_lua_session option \<times> action list) run" where
  "janus_play_playout_thread w data =
    (case data of
       None \<Rightarrow> Done (None, [])
     | Some session \<Rightarrow>
         (case recording session of
            None \<Rightarrow> Done (Some session, [])
          | Some rec \<Rightarrow>
              if recorder session then Done (Some session, [])
              else if aframes session = [] \<and> vframes session = [] then Done (Some session, [])
              else
                (case open_track (w_fs w) (aframes session) (arc_path rec) (arc_file rec) of
                   None \<Rightarrow> Done (Some session, [])
                 | Some afile \<Rightarrow>
                     (case open_track (w_fs w) (vframes session) (vrc_path rec) (vrc_file rec) of
                        None \<Rightarrow> Done (Some session, [])
                      | Some vfile \<Rightarrow>
                          (let st = \<lparr>p_audio = 0, p_video = 0, asent = False, vsent = False,
                                     abefore = w_start w, vbefore = w_start w,
                                     p_buffer = replicate 1500 0,
                                     p_ctx = playback_start (rtpctx session)\<rparr>;
                               started = Event (session_id session) (transaction_id session) json_start
                           in case playout_loop (w_core w) afile vfile (aframes session) (vframes session)
                                     (w_ticks w) st of
                                Running \<Rightarrow> Running
                              | Buffer_Overrun \<Rightarrow> Buffer_Overrun
                              | Done (st, acts) \<Rightarrow>
                                  (let json = (if w_exit_stop_playing w = True then json_stopped
                                               else json_ended);
                                       ended = Event (session_id session) (transaction_id session) json;
                                       session = session\<lparr>rtpctx := p_ctx st\<rparr>;
                                       session = session\<lparr>aframes := []\<rparr>;
                                       session = session\<lparr>vframes := []\<rparr>
                                   in Done (Some session, started # acts @ [ended])))))))"

text \<open>
  The worker gets past every return of lines 519 to 581: there is a session, it has
  a recording, it is not a recorder, it has frames, and the file of each track that
  has frames opens.
\<close>

definition playout_starts :: "world \<Rightarrow> janus_lua_session option \<Rightarrow> bool" where
  "playout_starts w data =
    (case data of
       None \<Rightarrow> False
     | Some session \<Rightarrow>
         (case recording session of
            None \<Rightarrow> False
          | Some rec \<Rightarrow>
              \<not> recorder session \<and> \<not> (aframes session = [] \<and> vframes session = []) \<and>
              open_track (w_fs w) (aframes session) (arc_path rec) (arc_file rec) \<noteq> None \<and>
              open_track (w_fs w) (vframes session) (vrc_path rec) (vrc_file rec) \<noteq> None))"

text \<open>The payloads of the events among the calls, in order.\<close>

fun event_json :: "action \<Rightarrow> string option" where
  "event_json (Event i tr json) = Some json"
| "event_json (USleep n) = None"
| "event_json (Relay video bytes) = None"

definition payloads :: "action list \<Rightarrow> string list" where
  "payloads trace = List.map_filter event_json trace"

text \<open>A round observes a reason to leave the loop whatever the pointers are.\<close>

definition stops :: "tick \<Rightarrow> bool" where
  "stops tk \<longleftrightarrow> t_destroyed tk \<or> \<not> t_active tk \<or> t_rec_destroyed tk \<or> t_stop_playing tk"

subsection \<open>Sessions and worlds for concrete runs\<close>

definition tick_at :: "int \<Rightarrow> int \<Rightarrow> tick" where
  "tick_at s us =
    \<lparr>t_destroyed = False, t_active = True, t_rec_destroyed = False, t_stop_playing = False,
     t_now_audio = \<lparr>tv_sec = s, tv_usec = us\<rparr>, t_now_video = \<lparr>tv_sec = s, tv_usec = us\<rparr>,
     t_mono = (\<lambda>n. s * 1000000 + us + int n)\<rparr>"

definition audio_session :: janus_lua_session where
  "audio_session =
    \<lparr>session_id = 7, transaction_id = ''tx'',
     recording = Some \<lparr>arc_path = ''/rec'', arc_file = ''reordered'', vrc_path = [], vrc_file = []\<rparr>,
     recorder = False,
     aframes = [\<lparr>seq = 1, ts = 1000, len = 12, offset = 47\<rparr>,
                \<lparr>seq = 65535, ts = 1960, len = 12, offset = 69\<rparr>,
                \<lparr>seq = 2, ts = 1960, len = 12, offset = 25\<rparr>,
                \<lparr>seq = 3, ts = 2920, len = 13, offset = 91\<rparr>],
     vframes = [],
     rtpctx = ctx0\<rparr>"

definition audio_world :: world where
  "audio_world =
    \<lparr>w_fs = recordings, w_core = True, w_start = \<lparr>tv_sec = 0, tv_usec = 0\<rparr>,
     w_ticks = [tick_at 1 0, tick_at 1 20000, tick_at 1 20000, tick_at 1 40000, tick_at 1 40000],
     w_exit_stop_playing = False\<rparr>"

definition stopped_world :: world where
  "stopped_world =
    \<lparr>w_fs = recordings, w_core = True, w_start = \<lparr>tv_sec = 0, tv_usec = 0\<rparr>,
     w_ticks = [tick_at 1 0, (tick_at 1 20000)\<lparr>t_stop_playing := True\<rparr>],
     w_exit_stop_playing = True\<rparr>"

text \<open>
  Two audio descriptors 24000 ticks apart (half a second at 48 kHz), and the loop
  about to send the second one with the reference time at 10.5 seconds.
\<close>

definition half_second_frames :: "janus_play_frame_packet list" where
  "half_second_frames =
    [\<lparr>seq = 1, ts = 1000, len = 12, offset = 47\<rparr>, \<lparr>seq = 2, ts = 25000, len = 12, offset = 25\<rparr>]"

definition half_second_state :: playout where
  "half_second_state =
    \<lparr>p_audio = 1, p_video = 0, asent = False, vsent = False,
     abefore = \<lparr>tv_sec = 10, tv_usec = 500000\<rparr>, vbefore = \<lparr>tv_sec = 10, tv_usec = 0\<rparr>,
     p_buffer = replicate 1500 0, p_ctx = ctx0\<rparr>"

section \<open>Properties of the rewriter\<close>

lemmas dir_defs = dir_last_seq_def dir_base_seq_def dir_base_seq_prev_def dir_last_ssrc_def dir_seq_reset_def
lemmas upd_defs = rtp_header_update2_def video_ssrc_changed_def audio_ssrc_changed_def
  video_seq_reset_def audio_seq_reset_def Let_def

lemma other_dir:
  "rtp_header_update2 h c (\<not> v) step t1 t2 = (h', c') \<Longrightarrow>
   dir_last_seq v c' = dir_last_seq v c \<and> dir_base_seq v c' = dir_base_seq v c \<and>
   dir_base_seq_prev v c' = dir_base_seq_prev v c \<and> dir_last_ssrc v c' = dir_last_ssrc v c \<and>
   dir_seq_reset v c' = dir_seq_reset v c"
  by (cases v) (auto simp: dir_defs upd_defs split: if_splits)

lemma same_dir_steady:
  "rtp_header_update2 h c v step t1 t2 = (h', c') \<Longrightarrow> \<not> dir_seq_reset v c \<Longrightarrow> ssrc h = dir_last_ssrc v c \<Longrightarrow>
   seq_number h' = (seq_number h - dir_base_seq v c) + dir_base_seq_prev v c + 1 \<and>
   dir_last_seq v c' = seq_number h' \<and> dir_base_seq v c' = dir_base_seq v c \<and>
   dir_base_seq_prev v c' = dir_base_seq_prev v c \<and> dir_last_ssrc v c' = dir_last_ssrc v c \<and>
   \<not> dir_seq_reset v c'"
  by (cases v) (auto simp: dir_defs upd_defs split: if_splits)

lemma same_dir_reset:
  "rtp_header_update2 h c v step t1 t2 = (h', c') \<Longrightarrow> dir_seq_reset v c \<Longrightarrow>
   seq_number h' = dir_last_seq v c + 1 \<and>
   dir_last_seq v c' = seq_number h' \<and> dir_base_seq v c' = seq_number h \<and>
   dir_base_seq_prev v c' = dir_last_seq v c \<and> dir_last_ssrc v c' = ssrc h \<and>
   \<not> dir_seq_reset v c'"
  by (cases v) (auto simp: dir_defs upd_defs split: if_splits)

lemma steady_run:
  "relay_all c ps = (out, c') \<Longrightarrow> \<not> dir_seq_reset v c \<Longrightarrow> dir_last_ssrc v c = sr \<Longrightarrow>
   \<forall>h \<in> set (inputs_of v ps). ssrc h = sr \<Longrightarrow>
   map seq_number (inputs_of v ps) = seq_from q (length (inputs_of v ps)) \<Longrightarrow>
   map seq_number (outputs_of v out) =
     seq_from ((q - dir_base_seq v c) + dir_base_seq_prev v c + 1) (length (inputs_of v ps)) \<and>
   dir_base_seq v c' = dir_base_seq v c \<and> dir_base_seq_prev v c' = dir_base_seq_prev v c"
proof (induction ps arbitrary: c out q)
  case Nil
  then show ?case by (simp add: inputs_of_def outputs_of_def)
next
  case (Cons p ps)
  obtain video h t1 t2 where p: "p = (video, h, t1, t2)" by (cases p) auto
  obtain h1 c1 where st: "rtp_header_update2 h c video (if video then 4500 else 960) t1 t2 = (h1, c1)"
    by (cases "rtp_header_update2 h c video (if video then 4500 else 960) t1 t2") auto
  obtain out1 where r: "relay_all c1 ps = (out1, c')" and out: "out = (video, h1) # out1"
    using Cons.prems(1) p st by (auto split: prod.splits)
  show ?case
  proof (cases "video = v")
    case True
    have ih: "inputs_of v (p # ps) = h # inputs_of v ps" using True p by (simp add: inputs_of_def)
    from same_dir_steady[OF st[unfolded True]] Cons.prems ih True
    have s: "seq_number h1 = (seq_number h - dir_base_seq v c) + dir_base_seq_prev v c + 1"
      "dir_base_seq v c1 = dir_base_seq v c" "dir_base_seq_prev v c1 = dir_base_seq_prev v c"
      "dir_last_ssrc v c1 = sr" "\<not> dir_seq_reset v c1" by auto
    have hq: "seq_number h = q" and rest: "map seq_number (inputs_of v ps) = seq_from (q + 1) (length (inputs_of v ps))"
      using Cons.prems(5) ih by auto
    have "map seq_number (outputs_of v out1) =
       seq_from (((q + 1) - dir_base_seq v c1) + dir_base_seq_prev v c1 + 1) (length (inputs_of v ps)) \<and>
       dir_base_seq v c' = dir_base_seq v c1 \<and> dir_base_seq_prev v c' = dir_base_seq_prev v c1"
      using Cons.IH[OF r s(5) s(4) _ rest] Cons.prems(4) ih by auto
    then show ?thesis using s hq ih out True by (simp add: outputs_of_def algebra_simps)
  next
    case False
    have ih: "inputs_of v (p # ps) = inputs_of v ps" using False p by (simp add: inputs_of_def)
    have st': "rtp_header_update2 h c (\<not> v) (if video then 4500 else 960) t1 t2 = (h1, c1)"
      using st False by auto
    from other_dir[OF st'] Cons.prems
    have s: "dir_base_seq v c1 = dir_base_seq v c" "dir_base_seq_prev v c1 = dir_base_seq_prev v c"
      "dir_last_ssrc v c1 = sr" "\<not> dir_seq_reset v c1" by auto
    show ?thesis using Cons.IH[OF r s(4) s(3), of q] Cons.prems(4,5) ih s out False
      by (simp add: outputs_of_def)
  qed
qed

lemma reset_run:
  "relay_all c ps = (out, c') \<Longrightarrow> dir_seq_reset v c \<Longrightarrow>
   \<forall>h \<in> set (inputs_of v ps). ssrc h = sr \<Longrightarrow>
   map seq_number (inputs_of v ps) = seq_from q (length (inputs_of v ps)) \<Longrightarrow>
   map seq_number (outputs_of v out) = seq_from (dir_last_seq v c + 1) (length (inputs_of v ps)) \<and>
   (inputs_of v ps \<noteq> [] \<longrightarrow> dir_base_seq v c' = q \<and> dir_base_seq_prev v c' = dir_last_seq v c)"
proof (induction ps arbitrary: c out)
  case Nil
  then show ?case by (simp add: inputs_of_def outputs_of_def)
next
  case (Cons p ps)
  obtain video h t1 t2 where p: "p = (video, h, t1, t2)" by (cases p) auto
  obtain h1 c1 where st: "rtp_header_update2 h c video (if video then 4500 else 960) t1 t2 = (h1, c1)"
    by (cases "rtp_header_update2 h c video (if video then 4500 else 960) t1 t2") auto
  obtain out1 where r: "relay_all c1 ps = (out1, c')" and out: "out = (video, h1) # out1"
    using Cons.prems(1) p st by (auto split: prod.splits)
  show ?case
  proof (cases "video = v")
    case True
    have ih: "inputs_of v (p # ps) = h # inputs_of v ps" using True p by (simp add: inputs_of_def)
    from same_dir_reset[OF st[unfolded True] Cons.prems(2)]
    have s: "seq_number h1 = dir_last_seq v c + 1" "dir_base_seq v c1 = seq_number h"
      "dir_base_seq_prev v c1 = dir_last_seq v c" "dir_last_ssrc v c1 = ssrc h" "\<not> dir_seq_reset v c1"
      by auto
    have hq: "seq_number h = q" and rest: "map seq_number (inputs_of v ps) = seq_from (q + 1) (length (inputs_of v ps))"
      using Cons.prems(4) ih by auto
    have sr: "ssrc h = sr" "\<forall>h \<in> set (inputs_of v ps). ssrc h = sr" using Cons.prems(3) ih by auto
    have "map seq_number (outputs_of v out1) =
       seq_from (((q + 1) - dir_base_seq v c1) + dir_base_seq_prev v c1 + 1) (length (inputs_of v ps)) \<and>
       dir_base_seq v c' = dir_base_seq v c1 \<and> dir_base_seq_prev v c' = dir_base_seq_prev v c1"
      using steady_run[OF r s(5) _ sr(2) rest] s(4) sr(1) by simp
    then show ?thesis using s hq ih out True by (simp add: outputs_of_def algebra_simps)
  next
    case False
    have ih: "inputs_of v (p # ps) = inputs_of v ps" using False p by (simp add: inputs_of_def)
    have st': "rtp_header_update2 h c (\<not> v) (if video then 4500 else 960) t1 t2 = (h1, c1)"
      using st False by auto
    from other_dir[OF st'] Cons.prems
    have s: "dir_last_seq v c1 = dir_last_seq v c" "dir_seq_reset v c1" by auto
    show ?thesis using Cons.IH[OF r s(2)] Cons.prems(3,4) ih s out False
      by (simp add: outputs_of_def)
  qed
qed

lemma map_seq_from:
  "map (\<lambda>x. (x - q) + l + 1) (seq_from q n) = seq_from (l + 1) n"
proof (induction n arbitrary: q l)
  case 0
  show ?case by simp
next
  case (Suc n)
  have "(\<lambda>x. (x - q) + l + 1) = (\<lambda>x::16 word. (x - (q + 1)) + (l + 1) + 1)"
    by (rule ext) simp
  then show ?case using Suc.IH[of "q + 1" "l + 1"] by simp
qed

lemma playback_start_dir:
  "dir_seq_reset v (playback_start c)" "dir_last_seq v (playback_start c) = dir_last_seq v c"
  by (simp_all add: playback_start_def dir_defs)

text \<open>
  Claim C5. In one playback (both \<open>seq_reset\<close> flags set at its start), if the packets
  of direction \<open>v\<close> all carry the SSRC \<open>sr\<close> and their sequence numbers are
  \<open>q, q+1, \<dots>\<close>, then the rewritten sequence numbers of that direction are
  \<open>s, s+1, \<dots>\<close> modulo \<open>2^16\<close> with \<open>s = last_seq + 1\<close>, whatever the other
  direction interleaves; and each equals \<open>(raw_seq - base_seq) + base_seq_prev + 1\<close>
  for the direction's base fields.
\<close>

theorem sequence_gap_free:
  assumes run: "relay_all (playback_start c) ps = (out, c')"
    and same_ssrc: "\<forall>h \<in> set (inputs_of v ps). ssrc h = sr"
    and consecutive: "map seq_number (inputs_of v ps) = seq_from q (length (inputs_of v ps))"
  shows "map seq_number (outputs_of v out) = seq_from (dir_last_seq v c + 1) (length (inputs_of v ps)) \<and>
         map seq_number (outputs_of v out) =
           map (\<lambda>h. (seq_number h - dir_base_seq v c') + dir_base_seq_prev v c' + 1) (inputs_of v ps)"
proof -
  from reset_run[OF run playback_start_dir(1) same_ssrc consecutive]
  have a: "map seq_number (outputs_of v out) = seq_from (dir_last_seq v c + 1) (length (inputs_of v ps))"
    and b: "inputs_of v ps \<noteq> [] \<longrightarrow> dir_base_seq v c' = q \<and> dir_base_seq_prev v c' = dir_last_seq v c"
    by (simp_all add: playback_start_dir(2))
  show ?thesis
  proof (cases "inputs_of v ps = []")
    case True
    then show ?thesis using a by simp
  next
    case False
    have "map (\<lambda>h. (seq_number h - dir_base_seq v c') + dir_base_seq_prev v c' + 1) (inputs_of v ps)
        = map (\<lambda>x. (x - q) + dir_last_seq v c + 1) (map seq_number (inputs_of v ps))"
      using b False by (simp add: comp_def)
    also have "\<dots> = seq_from (dir_last_seq v c + 1) (length (inputs_of v ps))"
      by (subst consecutive) (rule map_seq_from)
    finally show ?thesis using a by simp
  qed
qed

theorem sequence_gap_free_witness:
  "map seq_number (outputs_of False (fst (relay_all (playback_start (ctx0\<lparr>a_last_seq := 65534\<rparr>))
      [(False, pkt 7 500 1000, 10, 11), (True, pkt 9 30 9000, 12, 13), (False, pkt 7 501 1960, 20, 21),
       (False, pkt 7 502 2920, 30, 31)])))
   = [65535, 0, 1]"
  using sequence_gap_free [of "ctx0\<lparr>a_last_seq := 65534\<rparr>"
      "[(False, pkt 7 500 1000, 10, 11), (True, pkt 9 30 9000, 12, 13), (False, pkt 7 501 1960, 20, 21),
       (False, pkt 7 502 2920, 30, 31)]" _ _ False 7 500, OF surjective_pairing]
  by (simp add: inputs_of_def pkt_def dir_defs ctx0_def numeral_3_eq_3)

text \<open>
  Claim C4. An audio packet arrives while \<open>a_seq_reset\<close> is set, with the SSRC the
  context already has: the flag is cleared and the audio sequence bases are set as
  described, but \<open>a_base_ts_prev\<close> keeps its old value 0 (it is not
  \<open>a_last_ts + 2000 = 2100\<close>); the bump lands in \<open>v_base_ts_prev\<close>, which becomes
  \<open>v_last_ts + 2000 = 2007\<close>.
\<close>

theorem audio_seq_reset_bumps_video_ts:
  "(let c = ctx0\<lparr>a_seq_reset := True, a_last_ts := 100, a_last_seq := 40, v_last_ts := 7\<rparr>;
        (h', c') = rtp_header_update2 (pkt 0 500 1000) c False 960 0 1
    in \<not> a_seq_reset c' \<and> a_base_seq_prev c' = 40 \<and> a_base_seq c' = 500 \<and>
       a_base_ts_prev c' = 0 \<and> a_base_ts_prev c' \<noteq> a_last_ts c + 2000 \<and>
       v_base_ts_prev c' = 2007)"
  by (simp add: upd_defs ctx0_def pkt_def)

section \<open>Properties of the parser\<close>

lemma scan_rtp_offset: "s_offset (scan_rtp file pos s) = s_offset s + unat (s_len s)"
  by (simp add: scan_rtp_def track_timestamp_def Let_def split: prod.splits)

lemma pass1_round_advances:
  "pass1_round info_ok file s = Continue s' \<Longrightarrow> s_offset s < s_offset s'"
  by (auto simp: pass1_round_def Let_def scan_rtp_offset split: prod.splits if_splits)

lemma seq_ordered_asym: "seq_ordered a b \<Longrightarrow> \<not> seq_ordered b a"
  by (auto simp: seq_ordered_def)

lemma claimed_imp_chain_order: "claimed_order a b \<Longrightarrow> chain_order a b"
  by (auto simp: claimed_order_def chain_order_def dest: seq_ordered_asym)

lemma chain_order_alt:
  "chain_order a b \<longleftrightarrow> claimed_order a b \<or>
     ts a = ts b \<and> (seq a = seq b \<or> \<bar>uint (seq a) - uint (seq b)\<bar> = 10000)"
  by (auto simp: claimed_order_def chain_order_def seq_ordered_def)

lemma walk_back_ordered:
  "successively chain_order (rev earlier @ later) \<Longrightarrow>
   (later \<noteq> [] \<longrightarrow> chain_order p (hd later)) \<Longrightarrow>
   successively chain_order (walk_back earlier p later)"
proof (induction earlier arbitrary: later)
  case Nil
  then show ?case by (cases later) auto
next
  case (Cons tmp earlier)
  have "successively chain_order ((rev earlier @ [tmp]) @ later)"
    using Cons.prems(1) by simp
  then have pre: "successively chain_order (rev earlier @ [tmp])" and post: "successively chain_order later"
    unfolding successively_append_iff by blast+
  have link: "successively chain_order (rev earlier @ tmp # p # later)" if "chain_order tmp p"
    using that pre post Cons.prems(2)
    by (cases later) (auto simp: successively_append_iff successively_Cons)
  have skip: "successively chain_order (walk_back earlier p (tmp # later))" if "chain_order p tmp"
    using Cons.IH[of "tmp # later"] Cons.prems(1) that by simp
  show ?case
  proof (cases "ts tmp < ts p \<or> ts tmp = ts p \<and> seq_ordered tmp p")
    case True
    then have "chain_order tmp p" by (auto simp: chain_order_def dest: seq_ordered_asym)
    from link[OF this] True show ?thesis by (auto simp: seq_ordered_def)
  next
    case False
    then have "chain_order p tmp" by (auto simp: chain_order_def)
    from skip[OF this] False show ?thesis by (auto simp: seq_ordered_def)
  qed
qed

lemma insert_frame_ordered:
  "successively chain_order chain \<Longrightarrow> successively chain_order (insert_frame p chain)"
  using walk_back_ordered[of "rev chain" "[]" p] by (simp add: insert_frame_def)

lemma set_walk_back: "set (walk_back earlier p later) = insert p (set earlier \<union> set later)"
  by (induction earlier arbitrary: later) auto

lemma set_insert_frame: "set (insert_frame p chain) = insert p (set chain)"
  by (simp add: insert_frame_def set_walk_back)

lemma pass2_invariant:
  assumes "I s"
    and "\<forall>s s'. I s \<and> i_offset s < length file \<and> pass2_round reset first_ts file s = Next s' \<longrightarrow> I s'"
    and "\<forall>s s'. I s \<and> i_offset s < length file \<and> pass2_round reset first_ts file s = Break s' \<longrightarrow> Q s'"
    and "\<forall>s. I s \<and> \<not> i_offset s < length file \<longrightarrow> Q s"
  shows "Q (pass2 reset first_ts file s)"
  using assms
proof (induction reset first_ts "file" s rule: pass2.induct)
  case (1 reset first_ts fl s)
  show ?case
  proof (cases "i_offset s < length fl")
    case False
    then show ?thesis using "1.prems"(4) "1.prems"(1) by (simp add: pass2.simps[of _ _ fl s])
  next
    case True
    show ?thesis
    proof (cases "pass2_round reset first_ts fl s")
      case (Break s')
      then show ?thesis using True "1.prems"(3) "1.prems"(1) by (auto simp: pass2.simps[of _ _ fl s])
    next
      case (Next s')
      have "I s'" using "1.prems"(2) "1.prems"(1) True Next by blast
      from "1.IH"[OF True Next this "1.prems"(2,3,4)] show ?thesis
        using True Next by (simp add: pass2.simps[of _ _ fl s])
    qed
  qed
qed

lemma fread_count: "snd (fread buf n file pos) = min n (length file - pos)"
  by (simp add: fread_def Let_def)

lemma fread_nth:
  "i < n \<Longrightarrow> pos + i < length file \<Longrightarrow> fst (fread buf n file pos) ! i = file ! (pos + i)"
proof -
  assume "i < n" "pos + i < length file"
  then have "i < length (take n (drop pos file))" by simp
  moreover have "drop pos file ! i = file ! (pos + i)"
    using \<open>pos + i < length file\<close> by (intro nth_drop) simp
  ultimately show ?thesis by (simp add: fread_def Let_def nth_append)
qed

lemma fread_len_full:
  "pos + 2 \<le> length file \<Longrightarrow> fread_len v file pos = (be16 (file ! pos) (file ! (pos + 1)), 2)"
  by (simp add: fread_len_def case_prod_beta fread_count fread_nth)

lemma fread_len_count: "snd (fread_len v file pos) = min 2 (length file - pos)"
  by (simp add: fread_len_def case_prod_beta fread_count)

lemma pass2_round_Break: "pass2_round reset first_ts file s \<noteq> Break s'"
  by (simp add: pass2_round_def Let_def case_prod_beta)

lemma pass2_round_skip:
  assumes "fst (fread (i_prebuffer s) 8 file (i_offset s)) ! 1 = byte_of CHR ''J'' \<or>
           fst (fread_len (i_len s) file (i_offset s + snd (fread (i_prebuffer s) 8 file (i_offset s)))) < 12"
  shows "\<exists>s'. pass2_round reset first_ts file s = Next s' \<and> i_chain s' = i_chain s \<and> i_offset s < i_offset s'"
  using assms by (auto simp: pass2_round_def Let_def case_prod_beta)

lemma pass2_round_frame:
  assumes "\<not> (fst (fread (i_prebuffer s) 8 file (i_offset s)) ! 1 = byte_of CHR ''J'' \<or>
           fst (fread_len (i_len s) file (i_offset s + snd (fread (i_prebuffer s) 8 file (i_offset s)))) < 12)"
  shows "\<exists>s' pb l. pass2_round reset first_ts file s = Next s' \<and>
     l = fst (fread_len (i_len s) file (i_offset s + snd (fread (i_prebuffer s) 8 file (i_offset s)))) \<and>
     pb = fst (fread ((fst (fread (i_prebuffer s) 8 file (i_offset s)))[8 := 0]) 16 file
            (i_offset s + snd (fread (i_prebuffer s) 8 file (i_offset s)) +
             snd (fread_len (i_len s) file (i_offset s + snd (fread (i_prebuffer s) 8 file (i_offset s)))))) \<and>
     i_chain s' = insert_frame \<lparr>seq = rtp_seq_number pb, ts = frame_ts reset first_ts (rtp_timestamp pb),
        len = l, offset = i_offset s + 8 + 2\<rparr> (i_chain s) \<and>
     i_offset s' = i_offset s + 8 + 2 + unat l \<and> 12 \<le> l"
  using assms by (auto simp: pass2_round_def Let_def case_prod_beta not_less)

lemma pass2_round_Next:
  assumes nxt: "pass2_round reset first_ts file s = Next s'" and "i_offset s < length file"
  shows "(i_chain s' = i_chain s \<and> i_offset s < i_offset s') \<or>
         (\<exists>p. i_chain s' = insert_frame p (i_chain s) \<and> indexed_at reset first_ts file (i_offset s) p \<and>
              i_offset s' = offset p + unat (len p))"
proof (cases "fst (fread (i_prebuffer s) 8 file (i_offset s)) ! 1 = byte_of CHR ''J'' \<or>
           fst (fread_len (i_len s) file (i_offset s + snd (fread (i_prebuffer s) 8 file (i_offset s)))) < 12")
  case True
  from pass2_round_skip[OF True, of reset first_ts] nxt show ?thesis by auto
next
  case False
  from pass2_round_frame[OF False, of reset first_ts] nxt
  obtain pb l where
    l: "l = fst (fread_len (i_len s) file (i_offset s + snd (fread (i_prebuffer s) 8 file (i_offset s))))"
    and pb: "pb = fst (fread ((fst (fread (i_prebuffer s) 8 file (i_offset s)))[8 := 0]) 16 file
            (i_offset s + snd (fread (i_prebuffer s) 8 file (i_offset s)) +
             snd (fread_len (i_len s) file (i_offset s + snd (fread (i_prebuffer s) 8 file (i_offset s))))))"
    and ch: "i_chain s' = insert_frame \<lparr>seq = rtp_seq_number pb, ts = frame_ts reset first_ts (rtp_timestamp pb),
        len = l, offset = i_offset s + 10\<rparr> (i_chain s)"
    and off: "i_offset s' = i_offset s + 10 + unat l" and l12: "12 \<le> l"
    by (auto simp: add.commute)
  let ?p = "\<lparr>seq = rtp_seq_number pb, ts = frame_ts reset first_ts (rtp_timestamp pb),
        len = l, offset = i_offset s + 10\<rparr>"
  let ?o = "i_offset s"
  have full: "l = be16 (file ! (?o + 8)) (file ! (?o + 9)) \<and>
              pb = fst (fread ((fst (fread (i_prebuffer s) 8 file ?o))[8 := 0]) 16 file (?o + 10))"
    if "?o + 10 \<le> length file"
  proof -
    have c8: "snd (fread (i_prebuffer s) 8 file ?o) = 8" using that by (simp add: fread_count)
    have "fread_len (i_len s) file (?o + 8) = (be16 (file ! (?o + 8)) (file ! (?o + 8 + 1)), 2)"
      by (rule fread_len_full) (use that in simp)
    then show ?thesis using l pb c8 by (simp add: add.commute)
  qed
  have sq: "seq ?p = be16 (file ! (?o + 12)) (file ! (?o + 13))" if "?o + 14 \<le> length file"
  proof -
    have "pb ! 2 = file ! (?o + 10 + 2)" "pb ! 3 = file ! (?o + 10 + 3)"
      using full that by (simp_all add: fread_nth)
    then show ?thesis by (simp add: rtp_seq_number_def add.commute)
  qed
  have tsv: "ts ?p = frame_ts reset first_ts
                 (be32 (file ! (?o + 14)) (file ! (?o + 15)) (file ! (?o + 16)) (file ! (?o + 17)))"
    if "?o + 18 \<le> length file"
  proof -
    have "pb ! 4 = file ! (?o + 10 + 4)" "pb ! 5 = file ! (?o + 10 + 5)"
         "pb ! 6 = file ! (?o + 10 + 6)" "pb ! 7 = file ! (?o + 10 + 7)"
      using full that by (simp_all add: fread_nth)
    then show ?thesis by (simp add: rtp_timestamp_def add.commute)
  qed
  have "indexed_at reset first_ts file ?o ?p"
    unfolding indexed_at_def using full sq tsv l12 by (simp add: word_le_nat_alt)
  then show ?thesis using ch off by (intro disjI2 exI[of _ ?p]) simp
qed

lemma index_ok_step:
  assumes ok: "index_ok reset first_ts file s" and lt: "i_offset s < length file"
    and nxt: "pass2_round reset first_ts file s = Next s'"
  shows "index_ok reset first_ts file s'"
proof -
  have ord: "successively chain_order (i_chain s)" using ok by (simp add: index_ok_def)
  have old2: "offset p + unat (len p) \<le> i_offset s" if "p \<in> set (i_chain s)" for p
    using ok that by (simp add: index_ok_def)
  have old1: "offset p + unat (len p) \<le> length file" if "p \<in> set (i_chain s)" for p
    using old2[OF that] lt by simp
  have old3: "\<exists>start < length file. indexed_at reset first_ts file start p"
    if "p \<in> set (i_chain s)" for p
    using ok that by (simp add: index_ok_def)
  from pass2_round_Next[OF nxt lt] show ?thesis
  proof
    assume a: "i_chain s' = i_chain s \<and> i_offset s < i_offset s'"
    have "offset p + unat (len p) \<le> i_offset s'" if "p \<in> set (i_chain s)" for p
      using old2[OF that] a by simp
    then show ?thesis unfolding index_ok_def using a ord old1 old3 by simp
  next
    assume "\<exists>p. i_chain s' = insert_frame p (i_chain s) \<and> indexed_at reset first_ts file (i_offset s) p \<and>
              i_offset s' = offset p + unat (len p)"
    then obtain p where ch: "i_chain s' = insert_frame p (i_chain s)"
      and ia: "indexed_at reset first_ts file (i_offset s) p"
      and off: "i_offset s' = offset p + unat (len p)" by blast
    have op: "offset p = i_offset s + 10" using ia by (simp add: indexed_at_def)
    have st: "set (i_chain s') = insert p (set (i_chain s))" by (simp add: ch set_insert_frame)
    have 1: "successively chain_order (i_chain s')"
      using ord ch by (simp add: insert_frame_ordered)
    have 2: "offset r \<le> offset p" if "r \<in> set (i_chain s')" for r
    proof (cases "r = p")
      case False
      then have "r \<in> set (i_chain s)" using that st by simp
      from old2[OF this] op show ?thesis by simp
    qed simp
    have 3: "offset q + unat (len q) \<le> i_offset s'" if "q \<in> set (i_chain s')" for q
    proof (cases "q = p")
      case False
      then have "q \<in> set (i_chain s)" using that st by simp
      from old2[OF this] op off show ?thesis by simp
    qed (simp add: off)
    have 4: "\<exists>start < length file. indexed_at reset first_ts file start q" if "q \<in> set (i_chain s')" for q
    proof (cases "q = p")
      case True
      then show ?thesis using ia lt by blast
    next
      case False
      then have "q \<in> set (i_chain s)" using that st by simp
      from old3[OF this] show ?thesis .
    qed
    have 5: "offset q + unat (len q) \<le> length file \<or> (\<forall>r \<in> set (i_chain s'). offset r \<le> offset q)"
      if "q \<in> set (i_chain s')" for q
    proof (cases "q = p")
      case True
      then show ?thesis using 2 by blast
    next
      case False
      then have "q \<in> set (i_chain s)" using that st by simp
      from old1[OF this] show ?thesis by simp
    qed
    show ?thesis unfolding index_ok_def using 1 3 4 5 by blast
  qed
qed

lemma pass2_index_ok:
  "index_ok reset first_ts file (pass2 reset first_ts file (initial_index s))"
proof (rule pass2_invariant[where I = "index_ok reset first_ts file"])
  show "index_ok reset first_ts file (initial_index s)"
    by (simp add: index_ok_def initial_index_def)
  show "\<forall>s s'. index_ok reset first_ts file s \<and> i_offset s < length file \<and>
          pass2_round reset first_ts file s = Next s' \<longrightarrow> index_ok reset first_ts file s'"
    using index_ok_step by blast
  show "\<forall>s s'. index_ok reset first_ts file s \<and> i_offset s < length file \<and>
          pass2_round reset first_ts file s = Break s' \<longrightarrow> index_ok reset first_ts file s'"
    by (simp add: pass2_round_Break)
  show "\<forall>s. index_ok reset first_ts file s \<and> \<not> i_offset s < length file \<longrightarrow> index_ok reset first_ts file s"
    by simp
qed

lemma parse_file_Some:
  assumes "parse_file info_ok file = Returned (Some chain)"
  obtains s where "pass1 info_ok file initial_scan = Continue s"
    and "chain = i_chain (pass2 (s_reset s) (s_first_ts s) file (initial_index s))"
  using assms by (auto simp: parse_file_def chain_head_def split: round.splits if_splits)

lemma get_frames_Some:
  assumes "janus_play_get_frames fs info_ok dir filename = Returned (Some chain)"
  obtains d f fl where "dir = Some d" "filename = Some f" "fs (source_path d f) = Some fl"
    "parse_file info_ok fl = Returned (Some chain)"
  using assms by (auto simp: janus_play_get_frames_def split: option.splits)

lemma get_frames_file:
  "fs (source_path d f) = Some file \<Longrightarrow>
   janus_play_get_frames fs info_ok (Some d) (Some f) = parse_file info_ok file"
  by (simp add: janus_play_get_frames_def)

lemma parse_file_index_ok:
  assumes "parse_file info_ok file = Returned (Some chain)"
  obtains s where "pass1 info_ok file initial_scan = Continue s"
    and "chain = i_chain (pass2 (s_reset s) (s_first_ts s) file (initial_index s))"
    and "index_ok (s_reset s) (s_first_ts s) file (pass2 (s_reset s) (s_first_ts s) file (initial_index s))"
  using parse_file_Some[OF assms] pass2_index_ok by metis

subsection \<open>Pass 1 and the check of the info header\<close>

text \<open>
  A round consults the check only on the text of the record it reads, and not at
  all once \<open>parsed_header\<close> is set; so two checks that agree on the text of the first
  record give the same index, when that record is the one that sets the flag.
\<close>

lemma pass1_round_info_text:
  "info_ok (info_text fl s) = info_ok' (info_text fl s) \<Longrightarrow>
   pass1_round info_ok fl s = pass1_round info_ok' fl s"
  by (cases "snd (fread (s_prebuffer s) 8 fl (s_offset s)) = 8")
     (simp_all add: pass1_round_def info_text_def Let_def case_prod_beta)

lemma pass1_round_parsed:
  "s_parsed_header s \<Longrightarrow> pass1_round info_ok fl s = pass1_round info_ok' fl s"
  by (simp add: pass1_round_def Let_def case_prod_beta)

lemma scan_rtp_parsed: "s_parsed_header (scan_rtp fl pos s) = s_parsed_header s"
  by (simp add: scan_rtp_def track_timestamp_def Let_def case_prod_beta)

lemma pass1_round_keeps_parsed:
  "pass1_round info_ok fl s = Continue s' \<Longrightarrow> s_parsed_header s \<Longrightarrow> s_parsed_header s'"
  by (auto simp: pass1_round_def scan_rtp_parsed Let_def case_prod_beta split: if_splits)

lemma pass1_parsed:
  "s_parsed_header s \<Longrightarrow> pass1 info_ok fl s = pass1 info_ok' fl s"
proof (induction info_ok "fl" s rule: pass1.induct)
  case (1 info_ok fl s)
  have r: "pass1_round info_ok fl s = pass1_round info_ok' fl s"
    using "1.prems" by (rule pass1_round_parsed)
  show ?case
  proof (cases "s_offset s < length fl")
    case False
    then show ?thesis by (simp add: pass1.simps[of _ fl s])
  next
    case True
    show ?thesis
    proof (cases "pass1_round info_ok fl s")
      case (Continue s')
      have "s_parsed_header s'" using Continue "1.prems" by (rule pass1_round_keeps_parsed)
      then have "pass1 info_ok fl s' = pass1 info_ok' fl s'"
        using "1.IH"[OF True Continue] by simp
      then show ?thesis using True Continue r by (simp add: pass1.simps[of _ fl s])
    qed (use True r in \<open>simp_all add: pass1.simps[of _ fl s]\<close>)
  qed
qed

lemma pass1_info_text:
  assumes "info_ok (info_text fl initial_scan) = info_ok' (info_text fl initial_scan)"
    and "case pass1_round info_ok' fl initial_scan of Continue s \<Rightarrow> s_parsed_header s | _ \<Rightarrow> True"
  shows "pass1 info_ok fl initial_scan = pass1 info_ok' fl initial_scan"
proof -
  have r: "pass1_round info_ok fl initial_scan = pass1_round info_ok' fl initial_scan"
    using assms(1) by (rule pass1_round_info_text)
  show ?thesis
  proof (cases "pass1_round info_ok' fl initial_scan")
    case (Continue s')
    then have "s_parsed_header s'" using assms(2) by simp
    then have "pass1 info_ok fl s' = pass1 info_ok' fl s'" by (rule pass1_parsed)
    then show ?thesis using Continue r by (simp add: pass1.simps[of _ fl initial_scan])
  qed (use r in \<open>simp_all add: pass1.simps[of _ fl initial_scan]\<close>)
qed

lemma parse_file_info_text:
  assumes "info_ok (info_text fl initial_scan) = info_ok' (info_text fl initial_scan)"
    and "case pass1_round info_ok' fl initial_scan of Continue s \<Rightarrow> s_parsed_header s | _ \<Rightarrow> True"
  shows "parse_file info_ok fl = parse_file info_ok' fl"
  using pass1_info_text[of info_ok fl info_ok'] assms by (simp add: parse_file_def)

section \<open>The parser on recordings built from frame records\<close>

lemma be16_bytes_decode:
  "be16 (ucast (drop_bit 8 w)) (ucast w) = (w :: 16 word)"
  by (rule bit_word_eqI) (auto simp: be16_def bit_simps)

lemma be16_of_be16_bytes:
  "be16 (be16_bytes n ! 0) (be16_bytes n ! 1) = word_of_nat n"
  by (simp add: be16_bytes_def be16_bytes_decode)

lemma length_be16_bytes [simp]: "length (be16_bytes n) = 2"
  by (simp add: be16_bytes_def)

lemma length_frame_record [simp]: "length (frame_record r) = 10 + length r"
  by (simp add: frame_record_def)

lemma unat_len16: "n < 65536 \<Longrightarrow> unat (word_of_nat n :: 16 word) = n"
  by (simp add: unat_of_nat)

lemma fread_mid:
  "n \<le> length x \<Longrightarrow> fread buf n (pre @ x @ post) (length pre) = (take n x @ drop n buf, n)"
  by (simp add: fread_def Let_def)

lemma fread_len_mid:
  "fread_len v (pre @ be16_bytes n @ post) (length pre) = (word_of_nat n, 2)"
  using fread_mid[of 2 "be16_bytes n" "[ucast v, ucast (drop_bit 8 v)]" pre post]
  by (simp add: fread_len_def be16_of_be16_bytes[symmetric])

lemma rtp_timestamp_fread:
  assumes "8 \<le> length r"
  shows "rtp_timestamp (fst (fread buf 16 (pre @ r @ post) (length pre))) = rtp_timestamp r"
proof -
  have "fst (fread buf 16 (pre @ r @ post) (length pre)) ! i = r ! i" if "i < 8" for i
  proof -
    have "fst (fread buf 16 (pre @ r @ post) (length pre)) ! i = (pre @ r @ post) ! (length pre + i)"
      using that assms by (intro fread_nth) simp_all
    also have "\<dots> = r ! i" using that assms by (simp add: nth_append)
    finally show ?thesis .
  qed
  then show ?thesis by (simp add: rtp_timestamp_def)
qed

lemma rtp_seq_number_fread:
  assumes "4 \<le> length r"
  shows "rtp_seq_number (fst (fread buf 16 (pre @ r @ post) (length pre))) = rtp_seq_number r"
proof -
  have "fst (fread buf 16 (pre @ r @ post) (length pre)) ! i = r ! i" if "i < 4" for i
  proof -
    have "fst (fread buf 16 (pre @ r @ post) (length pre)) ! i = (pre @ r @ post) ! (length pre + i)"
      using that assms by (intro fread_nth) simp_all
    also have "\<dots> = r ! i" using that assms by (simp add: nth_append)
    finally show ?thesis .
  qed
  then show ?thesis by (simp add: rtp_seq_number_def)
qed

lemma tag_bytes: "map byte_of ''MEETECHO'' = [0x4D, 0x45, 0x45, 0x54, 0x45, 0x43, 0x48, 0x4F]"
  by (simp add: byte_of_def)

lemma letters:
  "byte_of CHR ''M'' = 0x4D" "byte_of CHR ''E'' = 0x45" "byte_of CHR ''J'' = 0x4A"
  "byte_of CHR ''v'' = 0x76" "byte_of CHR ''a'' = 0x61"
  by (simp_all add: byte_of_def)

lemma len16_facts:
  assumes "12 \<le> n" "n < 65536"
  shows "(word_of_nat n :: 16 word) \<noteq> 5" "\<not> (word_of_nat n :: 16 word) < 12"
    "unat (word_of_nat n :: 16 word) = n"
  using assms by (auto simp: word_less_nat_alt unat_of_nat dest!: arg_cong[where f = unat])

lemma frame_reads:
  fixes pre r post
  defines "file \<equiv> pre @ frame_record r @ post"
  shows "fread buf 8 file (length pre) = (map byte_of ''MEETECHO'' @ drop 8 buf, 8)"
    and "fread_len v file (length pre + 8) = (word_of_nat (length r), 2)"
    and "8 \<le> length r \<Longrightarrow> rtp_timestamp (fst (fread buf 16 file (length pre + 10))) = rtp_timestamp r"
    and "4 \<le> length r \<Longrightarrow> rtp_seq_number (fst (fread buf 16 file (length pre + 10))) = rtp_seq_number r"
proof -
  have f1: "file = pre @ map byte_of ''MEETECHO'' @ (be16_bytes (length r) @ r @ post)"
    by (simp add: file_def frame_record_def)
  have f2: "file = (pre @ map byte_of ''MEETECHO'') @ be16_bytes (length r) @ (r @ post)"
    by (simp add: file_def frame_record_def)
  have f3: "file = (pre @ map byte_of ''MEETECHO'' @ be16_bytes (length r)) @ r @ post"
    by (simp add: file_def frame_record_def)
  show "fread buf 8 file (length pre) = (map byte_of ''MEETECHO'' @ drop 8 buf, 8)"
    unfolding f1 by (subst fread_mid) simp_all
  have p2: "length pre + 8 = length (pre @ map byte_of ''MEETECHO'')" by simp
  show "fread_len v file (length pre + 8) = (word_of_nat (length r), 2)"
    unfolding f2 p2 by (rule fread_len_mid)
  have p3: "length pre + 10 = length (pre @ map byte_of ''MEETECHO'' @ be16_bytes (length r))" by simp
  show "rtp_timestamp (fst (fread buf 16 file (length pre + 10))) = rtp_timestamp r" if "8 \<le> length r"
    unfolding f3 p3 by (rule rtp_timestamp_fread[OF that])
  show "rtp_seq_number (fst (fread buf 16 file (length pre + 10))) = rtp_seq_number r" if "4 \<le> length r"
    unfolding f3 p3 by (rule rtp_seq_number_fread[OF that])
qed

lemma tracking_track:
  "tracking (track_timestamp t (s\<lparr>s_offset := a, s_len := b, s_prebuffer := c\<rparr>)) = tracking (track_timestamp t s)"
  by (simp add: tracking_def track_timestamp_def Let_def)

lemma scan_rtp_tracking:
  "tracking (scan_rtp file pos s) =
     tracking (track_timestamp (rtp_timestamp (fst (fread (s_prebuffer s) 16 file pos))) s)"
  by (simp add: scan_rtp_def case_prod_beta Let_def tracking_def track_timestamp_def)

lemma pass1_round_frame:
  assumes sz: "12 \<le> length r" "length r < 65536" and off: "s_offset s = length pre"
  shows "\<exists>s'. pass1_round info_ok (pre @ frame_record r @ post) s = Continue s' \<and>
           s_offset s' = length pre + length (frame_record r) \<and>
           tracking s' = tracking (track_timestamp (rtp_timestamp r) s)"
proof -
  let ?file = "pre @ frame_record r @ post"
  let ?s2 = "s\<lparr>s_prebuffer := map byte_of ''MEETECHO'' @ drop 8 (s_prebuffer s),
               s_offset := length pre + 8, s_len := word_of_nat (length r),
               s_offset := length pre + 8 + 2\<rparr>"
  note rd = frame_reads[where pre = pre and r = r and post = post]
  have p10: "length pre + 8 + 2 = length pre + 10" by simp
  have "pass1_round info_ok ?file s = Continue (scan_rtp ?file (length pre + 8 + 2) ?s2)"
    using sz
    by (simp add: pass1_round_def Let_def off rd(1,2) tag_bytes letters len16_facts)
  moreover have "s_offset (scan_rtp ?file (length pre + 8 + 2) ?s2) = length pre + length (frame_record r)"
    using sz by (simp add: scan_rtp_offset len16_facts)
  moreover have "tracking (scan_rtp ?file (length pre + 8 + 2) ?s2) = tracking (track_timestamp (rtp_timestamp r) s)"
  proof -
    have "rtp_timestamp (fst (fread (s_prebuffer ?s2) 16 ?file (length pre + 10))) = rtp_timestamp r"
      by (rule rd(3)) (use sz in simp)
    then have "tracking (scan_rtp ?file (length pre + 10) ?s2) = tracking (track_timestamp (rtp_timestamp r) ?s2)"
      by (simp only: scan_rtp_tracking)
    also have "\<dots> = tracking (track_timestamp (rtp_timestamp r) s)"
      by (simp add: tracking_def track_timestamp_def Let_def)
    finally show ?thesis by (simp only: p10)
  qed
  ultimately show ?thesis by blast
qed

lemma pass2_round_on_frame:
  assumes sz: "12 \<le> length r" "length r < 65536" and off: "i_offset s = length pre"
  shows "\<exists>s'. pass2_round reset first_ts (pre @ frame_record r @ post) s = Next s' \<and>
           i_offset s' = length pre + length (frame_record r) \<and>
           i_chain s' = insert_frame
              \<lparr>seq = rtp_seq_number r, ts = frame_ts reset first_ts (rtp_timestamp r),
               len = word_of_nat (length r), offset = length pre + 10\<rparr> (i_chain s)"
proof -
  let ?file = "pre @ frame_record r @ post"
  note rd = frame_reads[where pre = pre and r = r and post = post]
  have p10: "length pre + 8 + 2 = length pre + 10" by simp
  have c: "\<not> (fst (fread (i_prebuffer s) 8 ?file (i_offset s)) ! 1 = byte_of CHR ''J'' \<or>
           fst (fread_len (i_len s) ?file (i_offset s + snd (fread (i_prebuffer s) 8 ?file (i_offset s)))) < 12)"
    using sz by (simp add: off rd(1,2) tag_bytes letters len16_facts)
  from pass2_round_frame[OF c, of reset first_ts]
  obtain s' pb where nxt: "pass2_round reset first_ts ?file s = Next s'"
    and pb: "pb = fst (fread ((fst (fread (i_prebuffer s) 8 ?file (i_offset s)))[8 := 0]) 16 ?file
            (i_offset s + snd (fread (i_prebuffer s) 8 ?file (i_offset s)) +
             snd (fread_len (i_len s) ?file (i_offset s + snd (fread (i_prebuffer s) 8 ?file (i_offset s))))))"
    and ch: "i_chain s' = insert_frame \<lparr>seq = rtp_seq_number pb, ts = frame_ts reset first_ts (rtp_timestamp pb),
        len = fst (fread_len (i_len s) ?file (i_offset s + snd (fread (i_prebuffer s) 8 ?file (i_offset s)))),
        offset = i_offset s + 8 + 2\<rparr> (i_chain s)"
    and o': "i_offset s' = i_offset s + 8 + 2 +
        unat (fst (fread_len (i_len s) ?file (i_offset s + snd (fread (i_prebuffer s) 8 ?file (i_offset s)))))"
    by blast
  have l: "fst (fread_len (i_len s) ?file (i_offset s + snd (fread (i_prebuffer s) 8 ?file (i_offset s))))
            = word_of_nat (length r)"
    by (simp add: off rd(1,2))
  have l': "fst (fread_len (i_len s) ?file (length pre + snd (fread (i_prebuffer s) 8 ?file (length pre))))
            = word_of_nat (length r)"
    by (simp add: rd(1,2))
  have pb': "pb = fst (fread ((fst (fread (i_prebuffer s) 8 ?file (length pre)))[8 := 0]) 16 ?file (length pre + 10))"
    unfolding pb by (simp only: off rd(1,2) snd_conv p10)
  have sq: "rtp_seq_number pb = rtp_seq_number r" unfolding pb' by (rule rd(4)) (use sz in simp)
  have tv: "rtp_timestamp pb = rtp_timestamp r" unfolding pb' by (rule rd(3)) (use sz in simp)
  have "i_offset s' = length pre + length (frame_record r)"
    using o' sz unfolding l by (simp add: off len16_facts)
  moreover have "i_chain s' = insert_frame
              \<lparr>seq = rtp_seq_number r, ts = frame_ts reset first_ts (rtp_timestamp r),
               len = word_of_nat (length r), offset = length pre + 10\<rparr> (i_chain s)"
    unfolding ch sq tv off l' by (simp only: p10)
  ultimately show ?thesis using nxt by blast
qed

lemma tracking_fold_cong:
  "tracking a = tracking b \<Longrightarrow>
   tracking (fold track_timestamp stamps a) = tracking (fold track_timestamp stamps b)"
proof (induction stamps arbitrary: a b)
  case Nil
  then show ?case by simp
next
  case (Cons t stamps)
  have "tracking (track_timestamp t a) = tracking (track_timestamp t b)"
    using Cons.prems by (auto simp: tracking_def track_timestamp_def Let_def)
  from Cons.IH[OF this] show ?case by simp
qed

lemma pass1_frames:
  assumes "\<forall>r \<in> set rtps. 12 \<le> length r \<and> length r < 65536" and "s_offset s = length pre"
  shows "\<exists>s'. pass1 info_ok (pre @ concat (map frame_record rtps)) s = Continue s' \<and>
           tracking s' = tracking (fold track_timestamp (map rtp_timestamp rtps) s)"
  using assms
proof (induction rtps arbitrary: pre s)
  case Nil
  then show ?case by (simp add: pass1.simps[of _ pre s])
next
  case (Cons r rs)
  let ?file = "pre @ concat (map frame_record (r # rs))"
  have sz: "12 \<le> length r" "length r < 65536" using Cons.prems(1) by simp_all
  have fl_eq: "?file = pre @ frame_record r @ concat (map frame_record rs)" by simp
  from pass1_round_frame[OF sz Cons.prems(2), of info_ok "concat (map frame_record rs)"]
  obtain s1 where rnd: "pass1_round info_ok ?file s = Continue s1"
    and o1: "s_offset s1 = length (pre @ frame_record r)"
    and t1: "tracking s1 = tracking (track_timestamp (rtp_timestamp r) s)"
    unfolding fl_eq by auto
  have fl_eq': "?file = (pre @ frame_record r) @ concat (map frame_record rs)" by simp
  from Cons.IH[OF _ o1] Cons.prems(1)
  obtain s' where p: "pass1 info_ok ?file s1 = Continue s'"
    and t': "tracking s' = tracking (fold track_timestamp (map rtp_timestamp rs) s1)"
    unfolding fl_eq' by auto
  have lt: "s_offset s < length ?file" using Cons.prems(2) by simp
  have "pass1 info_ok ?file s = Continue s'"
    by (subst pass1.simps) (simp only: lt rnd p if_True round.case)
  moreover have "tracking s' = tracking (fold track_timestamp (map rtp_timestamp (r # rs)) s)"
    using t' tracking_fold_cong[OF t1] by simp
  ultimately show ?case by blast
qed

lemma pass2_frames:
  assumes "\<forall>r \<in> set rtps. 12 \<le> length r \<and> length r < 65536" and "i_offset s = length pre"
  shows "i_chain (pass2 reset first_ts (pre @ concat (map frame_record rtps)) s) =
           fold insert_frame (descriptors reset first_ts (length pre) rtps) (i_chain s)"
  using assms
proof (induction rtps arbitrary: pre s)
  case Nil
  then show ?case by (simp add: pass2.simps[of _ _ pre s])
next
  case (Cons r rs)
  let ?file = "pre @ concat (map frame_record (r # rs))"
  have sz: "12 \<le> length r" "length r < 65536" using Cons.prems(1) by simp_all
  have fl_eq: "?file = pre @ frame_record r @ concat (map frame_record rs)" by simp
  from pass2_round_on_frame[OF sz Cons.prems(2), of reset first_ts "concat (map frame_record rs)"]
  obtain s1 where rnd: "pass2_round reset first_ts ?file s = Next s1"
    and o1: "i_offset s1 = length (pre @ frame_record r)"
    and c1: "i_chain s1 = insert_frame
              \<lparr>seq = rtp_seq_number r, ts = frame_ts reset first_ts (rtp_timestamp r),
               len = word_of_nat (length r), offset = length pre + 10\<rparr> (i_chain s)"
    unfolding fl_eq by auto
  have fl_eq': "?file = (pre @ frame_record r) @ concat (map frame_record rs)" by simp
  have ih: "i_chain (pass2 reset first_ts ?file s1) =
           fold insert_frame (descriptors reset first_ts (length (pre @ frame_record r)) rs) (i_chain s1)"
    unfolding fl_eq' using Cons.IH[OF _ o1] Cons.prems(1) by simp
  have lt: "i_offset s < length ?file" using Cons.prems(2) by simp
  have "pass2 reset first_ts ?file s = pass2 reset first_ts ?file s1"
    by (subst pass2.simps) (simp only: lt rnd if_True step.case)
  then show ?case using ih c1 by (simp add: add.assoc)
qed

lemma legacy_file_eq:
  "length kind = 5 \<Longrightarrow>
   legacy_file kind rtps = frame_record (map byte_of kind) @ concat (map frame_record rtps)"
  by (simp add: legacy_file_def frame_record_def)

lemma pass1_round_header:
  assumes "kind = ''audio'' \<or> kind = ''video''"
  shows "\<exists>s'. pass1_round info_ok (frame_record (map byte_of kind) @ post) initial_scan = Continue s' \<and>
           s_offset s' = length (frame_record (map byte_of kind)) \<and> tracking s' = tracking initial_scan"
proof -
  note rd = frame_reads[where pre = "[]" and r = "map byte_of kind" and post = post, simplified]
  have k: "length kind = 5" using assms by auto
  have five: "fst (fread buf 5 (frame_record (map byte_of kind) @ post) 10) ! 0 = byte_of (kind ! 0)" for buf
  proof -
    have "fst (fread buf 5 (frame_record (map byte_of kind) @ post) 10) ! 0
        = (frame_record (map byte_of kind) @ post) ! (10 + 0)"
      by (rule fread_nth) (simp_all add: k)
    also have "\<dots> = byte_of (kind ! 0)"
      using assms by (auto simp: frame_record_def be16_bytes_def nth_append)
    finally show ?thesis .
  qed
  have av: "byte_of (kind ! 0) = byte_of CHR ''v'' \<or> byte_of (kind ! 0) = byte_of CHR ''a''"
    using assms by auto
  show ?thesis
    using av
    by (simp add: pass1_round_def Let_def initial_scan_def rd(1,2) k tag_bytes letters five
          case_prod_beta tracking_def)
qed

lemma pass2_round_header:
  assumes "length kind = 5" and "i_offset s = 0"
  shows "\<exists>s'. pass2_round reset first_ts (frame_record (map byte_of kind) @ post) s = Next s' \<and>
           i_offset s' = length (frame_record (map byte_of kind)) \<and> i_chain s' = i_chain s"
proof -
  note rd = frame_reads[where pre = "[]" and r = "map byte_of kind" and post = post, simplified]
  show ?thesis
    by (simp add: pass2_round_def Let_def assms rd(1,2) case_prod_beta)
qed

lemma pass1_legacy:
  assumes kind: "kind = ''audio'' \<or> kind = ''video''"
    and sizes: "\<forall>r \<in> set rtps. 12 \<le> length r \<and> length r < 65536"
  shows "\<exists>s'. pass1 info_ok (legacy_file kind rtps) initial_scan = Continue s' \<and>
           tracking s' = tracking (fold track_timestamp (map rtp_timestamp rtps) initial_scan)"
proof -
  have k: "length kind = 5" using kind by auto
  let ?hdr = "frame_record (map byte_of kind)"
  let ?file = "?hdr @ concat (map frame_record rtps)"
  from pass1_round_header[OF kind, of info_ok "concat (map frame_record rtps)"]
  obtain s1 where rnd: "pass1_round info_ok ?file initial_scan = Continue s1"
    and o1: "s_offset s1 = length ?hdr" and t1: "tracking s1 = tracking initial_scan" by blast
  from pass1_frames[OF sizes o1, of info_ok]
  obtain s' where p: "pass1 info_ok ?file s1 = Continue s'"
    and t': "tracking s' = tracking (fold track_timestamp (map rtp_timestamp rtps) s1)" by blast
  have lt: "s_offset initial_scan < length ?file" by (simp add: initial_scan_def)
  have "pass1 info_ok ?file initial_scan = Continue s'"
    by (subst pass1.simps) (simp only: lt rnd p if_True round.case)
  then show ?thesis using t' tracking_fold_cong[OF t1] by (auto simp: legacy_file_eq[OF k])
qed

lemma pass2_legacy:
  assumes k: "length kind = 5"
    and sizes: "\<forall>r \<in> set rtps. 12 \<le> length r \<and> length r < 65536"
  shows "i_chain (pass2 reset first_ts (legacy_file kind rtps) (initial_index s)) =
           fold insert_frame (descriptors reset first_ts 15 rtps) []"
proof -
  let ?hdr = "frame_record (map byte_of kind)"
  let ?file = "?hdr @ concat (map frame_record rtps)"
  have i0: "i_offset (initial_index s) = 0" by (simp add: initial_index_def)
  from pass2_round_header[OF k i0, of reset first_ts "concat (map frame_record rtps)"]
  obtain s1 where rnd: "pass2_round reset first_ts ?file (initial_index s) = Next s1"
    and o1: "i_offset s1 = length ?hdr" and c1: "i_chain s1 = i_chain (initial_index s)" by blast
  have lt: "i_offset (initial_index s) < length ?file" by (simp add: i0)
  have "pass2 reset first_ts ?file (initial_index s) = pass2 reset first_ts ?file s1"
    by (subst pass2.simps) (simp only: lt rnd if_True step.case)
  then show ?thesis
    using pass2_frames[OF sizes o1, of reset first_ts] c1 k
    by (simp add: legacy_file_eq[OF k] initial_index_def)
qed

lemma insert_frame_append:
  "chain = [] \<or> ts (last chain) < ts p \<Longrightarrow> insert_frame p chain = chain @ [p]"
proof (cases chain rule: rev_cases)
  case Nil
  then show ?thesis by (simp add: insert_frame_def)
next
  case (snoc xs x)
  assume "chain = [] \<or> ts (last chain) < ts p"
  then show ?thesis using snoc by (simp add: insert_frame_def)
qed

lemma fold_insert_frame_rising:
  "sorted_wrt (<) (map ts (chain @ ds)) \<Longrightarrow> fold insert_frame ds chain = chain @ ds"
proof (induction ds arbitrary: chain)
  case Nil
  then show ?case by simp
next
  case (Cons d ds)
  have "chain = [] \<or> ts (last chain) < ts d"
    using Cons.prems by (cases chain rule: rev_cases) (auto simp: sorted_wrt_append)
  then have "insert_frame d chain = chain @ [d]" by (rule insert_frame_append)
  then show ?case using Cons.IH[of "chain @ [d]"] Cons.prems by simp
qed

lemma ts_descriptors:
  "map ts (descriptors reset first_ts start rtps) = map (\<lambda>r. frame_ts reset first_ts (rtp_timestamp r)) rtps"
  by (induction rtps arbitrary: start) auto

lemma track_first:
  "s_last_ts s = 0 \<Longrightarrow>
   tracking (track_timestamp t s) = ((if t > 1000000 then t - 1000000 else t), t, s_reset s)"
  by (simp add: tracking_def track_timestamp_def Let_def)

lemma track_later:
  "s_last_ts s \<noteq> 0 \<Longrightarrow>
   tracking (track_timestamp t s) =
     (s_first_ts s, t,
      if t < s_last_ts s then (if s_last_ts s - t > 2000000000 then t else s_reset s)
      else if t < s_reset s then t else s_reset s)"
  by (simp add: tracking_def track_timestamp_def Let_def)

lemma track_nondecreasing:
  assumes "sorted_wrt (\<le>) (s_last_ts s # stamps)" and "\<forall>t \<in> set stamps. s_reset s \<le> t"
  shows "s_reset (fold track_timestamp stamps s) = s_reset s \<and>
         s_last_ts (fold track_timestamp stamps s) = last (s_last_ts s # stamps) \<and>
         (s_last_ts s \<noteq> 0 \<longrightarrow> s_first_ts (fold track_timestamp stamps s) = s_first_ts s)"
  using assms
proof (induction stamps arbitrary: s)
  case Nil
  then show ?case by simp
next
  case (Cons t stamps)
  let ?s1 = "track_timestamp t s"
  have le: "s_last_ts s \<le> t" "s_reset s \<le> t" using Cons.prems by simp_all
  have r1: "s_reset ?s1 = s_reset s" and l1: "s_last_ts ?s1 = t"
    and f1: "s_last_ts s \<noteq> 0 \<longrightarrow> s_first_ts ?s1 = s_first_ts s"
    using le by (auto simp: track_timestamp_def Let_def)
  have nz: "s_last_ts s \<noteq> 0 \<longrightarrow> t \<noteq> 0" using le(1) by auto
  have "sorted_wrt (\<le>) (s_last_ts ?s1 # stamps)" "\<forall>u \<in> set stamps. s_reset ?s1 \<le> u"
    using Cons.prems by (simp_all add: l1 r1)
  from Cons.IH[OF this] show ?case using r1 l1 f1 nz by simp
qed

lemma unat_ucast_32_64: "unat (ucast (a :: 32 word) :: 64 word) = unat a"
proof -
  have "unat a < 2 ^ 32" using unsigned_less[of a] by simp
  then have "unat a < 2 ^ 64" by simp
  then show ?thesis by (simp add: unsigned_ucast_eq take_bit_nat_eq_self)
qed

lemma ucast_mono_32_64: "(a :: 32 word) < b \<Longrightarrow> (ucast a :: 64 word) < ucast b"
  by (simp add: word_less_nat_alt unat_ucast_32_64)

lemma ucast_below_lift: "(ucast (a :: 32 word) :: 64 word) < 0x100000000 + ucast (b :: 32 word)"
proof -
  have "unat a < 2 ^ 32" "unat b < 2 ^ 32" using unsigned_less[of a] unsigned_less[of b] by simp_all
  then show ?thesis
    by (simp add: word_less_nat_alt unat_ucast_32_64 unat_word_ariths)
qed

lemma lift_mono: "(a :: 32 word) < b \<Longrightarrow> (0x100000000 + ucast a :: 64 word) < 0x100000000 + ucast b"
proof -
  assume "a < b"
  moreover have "unat a < 2 ^ 32" "unat b < 2 ^ 32" using unsigned_less[of a] unsigned_less[of b] by simp_all
  ultimately show ?thesis
    by (simp add: word_less_nat_alt unat_ucast_32_64 unat_word_ariths)
qed

lemma unat_frame_ts:
  "unat (frame_ts reset first_ts raw) =
     (if reset = 0 then unat raw else if raw > first_ts then unat raw else 2 ^ 32 + unat raw)"
proof -
  have "unat raw < 2 ^ 32" using unsigned_less[of raw] by simp
  then show ?thesis
    by (simp add: frame_ts_def Let_def unat_ucast_32_64 unat_word_ariths)
qed

lemma frame_ts_of_descriptor:
  assumes p1: "pass1 info_ok file initial_scan = Continue s"
    and pf: "parse_file info_ok file = Returned (Some chain)"
    and p: "p \<in> set chain" and fit: "offset p + 8 \<le> length file"
  shows "ts p = frame_ts (s_reset s) (s_first_ts s) (rtp_timestamp (drop (offset p) file))"
proof -
  from parse_file_index_ok[OF pf] p1 obtain s2 where
    ch: "chain = i_chain s2" and ok: "index_ok (s_reset s) (s_first_ts s) file s2" by auto
  from ok p ch obtain start where st: "indexed_at (s_reset s) (s_first_ts s) file start p"
    by (auto simp: index_ok_def)
  have o: "offset p = start + 10" using st by (simp add: indexed_at_def)
  then have "start + 18 \<le> length file" using fit by simp
  then have "ts p = frame_ts (s_reset s) (s_first_ts s)
                 (be32 (file ! (start + 14)) (file ! (start + 15)) (file ! (start + 16)) (file ! (start + 17)))"
    using st by (simp add: indexed_at_def)
  moreover have "drop (offset p) file ! i = file ! (offset p + i)" if "i < 8" for i
    using that fit by (intro nth_drop) simp
  then have "rtp_timestamp (drop (offset p) file) =
      be32 (file ! (start + 14)) (file ! (start + 15)) (file ! (start + 16)) (file ! (start + 17))"
    by (simp add: rtp_timestamp_def o add.commute)
  ultimately show ?thesis by simp
qed

lemma last_ts_fold:
  "stamps \<noteq> [] \<Longrightarrow> s_last_ts (fold track_timestamp stamps s) = last stamps"
proof (induction stamps arbitrary: s)
  case Nil
  then show ?case by simp
next
  case (Cons t stamps)
  have "s_last_ts (track_timestamp t s) = t" by (simp add: track_timestamp_def Let_def)
  then show ?case using Cons.IH[of "track_timestamp t s"] by (cases stamps) simp_all
qed

lemma rising_nondecreasing: "sorted_wrt (<) xs \<Longrightarrow> sorted_wrt (\<le>) (xs :: 32 word list)"
  by (erule sorted_wrt_mono_rel[rotated]) simp

lemma scan_rise_reset_rise:
  fixes pre post :: "32 word list"
  assumes rise1: "sorted_wrt (<) (p1 # pre)" and rise2: "sorted_wrt (<) (q1 # post)"
    and first: "1000000 < p1" and nz: "q1 \<noteq> 0"
    and fall: "q1 < last (p1 # pre)" "2000000000 < last (p1 # pre) - q1"
  shows "tracking (fold track_timestamp (p1 # pre @ q1 # post) initial_scan) = (p1 - 1000000, last (q1 # post), q1)"
proof -
  let ?a = "track_timestamp p1 initial_scan"
  have a: "tracking ?a = (p1 - 1000000, p1, 0)"
    using first by (simp add: track_first initial_scan_def)
  then have a': "s_first_ts ?a = p1 - 1000000" "s_last_ts ?a = p1" "s_reset ?a = 0"
    by (simp_all add: tracking_def)
  have p1nz: "p1 \<noteq> 0" using first by auto
  let ?b = "fold track_timestamp pre ?a"
  have "sorted_wrt (\<le>) (s_last_ts ?a # pre)" "\<forall>t \<in> set pre. s_reset ?a \<le> t"
    using rising_nondecreasing[OF rise1] by (simp_all add: a')
  from track_nondecreasing[OF this]
  have b: "s_reset ?b = 0" "s_last_ts ?b = last (p1 # pre)" "s_first_ts ?b = p1 - 1000000"
    using p1nz by (simp_all add: a')
  have lnz: "s_last_ts ?b \<noteq> 0" using fall(1) b(2) by auto
  let ?c = "track_timestamp q1 ?b"
  have c: "tracking ?c = (p1 - 1000000, q1, q1)"
    using fall by (simp add: track_later[OF lnz] b)
  then have c': "s_first_ts ?c = p1 - 1000000" "s_last_ts ?c = q1" "s_reset ?c = q1"
    by (simp_all add: tracking_def)
  let ?d = "fold track_timestamp post ?c"
  have "sorted_wrt (\<le>) (s_last_ts ?c # post)" "\<forall>t \<in> set post. s_reset ?c \<le> t"
    using rising_nondecreasing[OF rise2] by (simp_all add: c')
  from track_nondecreasing[OF this]
  have d: "s_reset ?d = q1" "s_last_ts ?d = last (q1 # post)" "s_first_ts ?d = p1 - 1000000"
    using nz by (simp_all add: c')
  have "fold track_timestamp (p1 # pre @ q1 # post) initial_scan = ?d" by simp
  then show ?thesis using d by (simp add: tracking_def)
qed

lemma seq_descriptors:
  "map seq (descriptors reset first_ts start rtps) = map rtp_seq_number rtps"
  by (induction rtps arbitrary: start) auto

lemma sub_million_less: "(1000000 :: 32 word) < a \<Longrightarrow> a - 1000000 < a"
  by (simp add: word_less_nat_alt unat_sub word_le_nat_alt)

lemma parse_legacy:
  assumes kind: "kind = ''audio'' \<or> kind = ''video''"
    and sizes: "\<forall>r \<in> set rtps. 12 \<le> length r \<and> length r < 65536"
  shows "\<exists>s. pass1 info_ok (legacy_file kind rtps) initial_scan = Continue s \<and>
           tracking s = tracking (fold track_timestamp (map rtp_timestamp rtps) initial_scan) \<and>
           parse_file info_ok (legacy_file kind rtps) =
             Returned (chain_head (fold insert_frame (descriptors (s_reset s) (s_first_ts s) 15 rtps) []))"
proof -
  have k: "length kind = 5" using kind by auto
  from pass1_legacy[OF kind sizes, of info_ok] obtain s where
    p: "pass1 info_ok (legacy_file kind rtps) initial_scan = Continue s"
    and t: "tracking s = tracking (fold track_timestamp (map rtp_timestamp rtps) initial_scan)" by blast
  have "parse_file info_ok (legacy_file kind rtps) =
          Returned (chain_head (fold insert_frame (descriptors (s_reset s) (s_first_ts s) 15 rtps) []))"
    by (simp add: parse_file_def p pass2_legacy[OF k sizes])
  then show ?thesis using p t by blast
qed

lemma wrap_recovery:
  assumes kind: "kind = ''audio'' \<or> kind = ''video''"
    and sizes: "\<forall>r \<in> set (pre @ post). 12 \<le> length r \<and> length r < 65536"
    and ne: "pre \<noteq> []" "post \<noteq> []"
    and rise1: "sorted_wrt (<) (map rtp_timestamp pre)"
    and rise2: "sorted_wrt (<) (map rtp_timestamp post)"
    and first: "1000000 < rtp_timestamp (hd pre)"
    and nz: "rtp_timestamp (hd post) \<noteq> 0"
    and fall: "rtp_timestamp (hd post) < rtp_timestamp (last pre)"
              "2000000000 < rtp_timestamp (last pre) - rtp_timestamp (hd post)"
    and low: "\<forall>r \<in> set post. rtp_timestamp r \<le> rtp_timestamp (hd pre) - 1000000"
  shows "\<exists>chain. parse_file info_ok (legacy_file kind (pre @ post)) = Returned (Some chain) \<and>
      map seq chain = map rtp_seq_number (pre @ post) \<and>
      map (\<lambda>p. unat (ts p)) chain =
        map (\<lambda>r. unat (rtp_timestamp r)) pre @ map (\<lambda>r. 2 ^ 32 + unat (rtp_timestamp r)) post \<and>
      sorted_wrt (<) (map ts chain)"
proof -
  obtain p1 pre' where pre: "pre = p1 # pre'" using ne(1) by (cases pre) auto
  obtain q1 post' where post: "post = q1 # post'" using ne(2) by (cases post) auto
  let ?tp = "rtp_timestamp p1" and ?tq = "rtp_timestamp q1"
  from parse_legacy[OF kind sizes, of info_ok] obtain s where
    t: "tracking s = tracking (fold track_timestamp (map rtp_timestamp (pre @ post)) initial_scan)"
    and pf: "parse_file info_ok (legacy_file kind (pre @ post)) =
             Returned (chain_head (fold insert_frame (descriptors (s_reset s) (s_first_ts s) 15 (pre @ post)) []))"
    by blast
  have lastpre: "last (?tp # map rtp_timestamp pre') = rtp_timestamp (last pre)"
    unfolding pre by (simp add: last_map)
  have "tracking (fold track_timestamp (?tp # map rtp_timestamp pre' @ ?tq # map rtp_timestamp post') initial_scan)
          = (?tp - 1000000, last (?tq # map rtp_timestamp post'), ?tq)"
    using rise1 rise2 first nz fall unfolding lastpre[symmetric]
    by (intro scan_rise_reset_rise) (simp_all add: pre post)
  then have rs: "s_reset s = ?tq" and fs: "s_first_ts s = ?tp - 1000000"
    using t by (simp_all add: tracking_def pre post)
  let ?ds = "descriptors (s_reset s) (s_first_ts s) 15 (pre @ post)"
  have qnz: "?tq \<noteq> 0" using nz post by simp
  have above: "?tp - 1000000 < rtp_timestamp r" if "r \<in> set pre" for r
  proof -
    have "?tp \<le> rtp_timestamp r" using that rise1 pre by auto
    moreover have "?tp - 1000000 < ?tp" using first pre by (simp add: sub_million_less)
    ultimately show ?thesis by simp
  qed
  have below: "\<not> ?tp - 1000000 < rtp_timestamp r" if "r \<in> set post" for r
    using low that pre by (simp add: not_less)
  have ts_pre: "map (\<lambda>r. frame_ts (s_reset s) (s_first_ts s) (rtp_timestamp r)) pre =
                map (\<lambda>r. ucast (rtp_timestamp r)) pre"
    using above qnz by (simp add: frame_ts_def rs fs)
  have ts_post: "map (\<lambda>r. frame_ts (s_reset s) (s_first_ts s) (rtp_timestamp r)) post =
                map (\<lambda>r. 0x100000000 + ucast (rtp_timestamp r)) post"
    using below qnz by (simp add: frame_ts_def rs fs Let_def)
  have tsd: "map ts ?ds = map (\<lambda>r. ucast (rtp_timestamp r)) pre @
                          map (\<lambda>r. 0x100000000 + ucast (rtp_timestamp r)) post"
    by (simp add: ts_descriptors ts_pre ts_post)
  have s1: "sorted_wrt (<) (map (\<lambda>r. ucast (rtp_timestamp r) :: 64 word) pre)"
    using rise1 unfolding sorted_wrt_map
    by (rule sorted_wrt_mono_rel[rotated]) (simp add: ucast_mono_32_64)
  have s2: "sorted_wrt (<) (map (\<lambda>r. 0x100000000 + ucast (rtp_timestamp r) :: 64 word) post)"
    using rise2 unfolding sorted_wrt_map
    by (rule sorted_wrt_mono_rel[rotated]) (simp add: lift_mono)
  have sorted: "sorted_wrt (<) (map ts ?ds)"
    unfolding tsd sorted_wrt_append using s1 s2 by (auto simp: ucast_below_lift)
  have chain: "fold insert_frame ?ds [] = ?ds"
    using fold_insert_frame_rising[of "[]" ?ds] sorted by simp
  have "?ds \<noteq> []" by (simp add: pre)
  then have 1: "parse_file info_ok (legacy_file kind (pre @ post)) = Returned (Some ?ds)"
    by (simp add: pf chain chain_head_def)
  have 2: "map seq ?ds = map rtp_seq_number (pre @ post)" by (rule seq_descriptors)
  have "map (\<lambda>p. unat (ts p)) ?ds = map unat (map ts ?ds)" by simp
  also have "\<dots> = map (\<lambda>r. unat (rtp_timestamp r)) pre @ map (\<lambda>r. 2 ^ 32 + unat (rtp_timestamp r)) post"
  proof -
    have "unat (0x100000000 + ucast w :: 64 word) = 2 ^ 32 + unat w" for w :: "32 word"
      using unat_frame_ts[of 1 0 0] unat_frame_ts[of 1 w w] by (simp add: frame_ts_def Let_def)
    then show ?thesis unfolding tsd by (simp add: unat_ucast_32_64 comp_def)
  qed
  finally have 3: "map (\<lambda>p. unat (ts p)) ?ds =
      map (\<lambda>r. unat (rtp_timestamp r)) pre @ map (\<lambda>r. 2 ^ 32 + unat (rtp_timestamp r)) post" .
  show ?thesis using 1 2 3 sorted by blast
qed

lemma reset_is_smallest:
  assumes kind: "kind = ''audio'' \<or> kind = ''video''"
    and sizes: "\<forall>x \<in> set (pre @ r # post). 12 \<le> length x \<and> length x < 65536"
    and ne: "pre \<noteq> []"
    and fall: "rtp_timestamp r < rtp_timestamp (last pre)"
              "2000000000 < rtp_timestamp (last pre) - rtp_timestamp r"
    and flat: "sorted_wrt (\<le>) (map rtp_timestamp (r # post))"
  shows "\<exists>s. pass1 info_ok (legacy_file kind (pre @ r # post)) initial_scan = Continue s \<and>
           s_reset s = rtp_timestamp r \<and> (\<forall>x \<in> set (r # post). s_reset s \<le> rtp_timestamp x)"
proof -
  from parse_legacy[OF kind sizes, of info_ok] obtain s where
    p: "pass1 info_ok (legacy_file kind (pre @ r # post)) initial_scan = Continue s"
    and t: "tracking s = tracking (fold track_timestamp (map rtp_timestamp (pre @ r # post)) initial_scan)"
    by blast
  let ?b = "fold track_timestamp (map rtp_timestamp pre) initial_scan"
  have lb: "s_last_ts ?b = rtp_timestamp (last pre)"
    using ne by (simp add: last_ts_fold last_map)
  then have lnz: "s_last_ts ?b \<noteq> 0" using fall(1) by auto
  let ?c = "track_timestamp (rtp_timestamp r) ?b"
  have c: "s_last_ts ?c = rtp_timestamp r" "s_reset ?c = rtp_timestamp r"
    using track_later[OF lnz, of "rtp_timestamp r"] fall by (simp_all add: tracking_def lb)
  have "sorted_wrt (\<le>) (s_last_ts ?c # map rtp_timestamp post)"
       "\<forall>t \<in> set (map rtp_timestamp post). s_reset ?c \<le> t"
    using flat by (simp_all add: c)
  from track_nondecreasing[OF this]
  have "s_reset (fold track_timestamp (map rtp_timestamp post) ?c) = rtp_timestamp r"
    by (simp add: c)
  then have "s_reset s = rtp_timestamp r" using t by (simp add: tracking_def)
  moreover have "\<forall>x \<in> set (r # post). rtp_timestamp r \<le> rtp_timestamp x" using flat by simp
  ultimately show ?thesis using p by auto
qed

section \<open>Properties of the playout worker\<close>

lemma payloads_Nil [simp]: "payloads [] = []"
  by (simp add: payloads_def map_filter_simps)

lemma payloads_Cons [simp]:
  "payloads (a # acts) = (case event_json a of None \<Rightarrow> payloads acts | Some json \<Rightarrow> json # payloads acts)"
  by (cases "event_json a") (simp_all add: payloads_def map_filter_simps)

lemma payloads_append [simp]: "payloads (xs @ ys) = payloads xs @ payloads ys"
  by (induction xs) (auto split: option.splits)

lemma send_packet_acts:
  "send_packet core file video p t1 t2 bc = Some (bc', acts) \<Longrightarrow> payloads acts = []"
  by (auto simp: send_packet_def Let_def case_prod_beta split: if_splits)

lemma video_burst_acts:
  "video_burst core vfile ts0 tk k frames bc = Some (bc', acts, n) \<Longrightarrow> payloads acts = []"
proof (induction frames arbitrary: k bc bc' acts n)
  case Nil
  then show ?case by simp
next
  case (Cons video rest)
  show ?case
  proof (cases "ts video = ts0")
    case False
    then show ?thesis using Cons.prems by simp
  next
    case True
    then obtain bc1 a1 bc2 a2 m where
      s: "send_packet core vfile True video (t_mono tk k) (t_mono tk (k + 1)) bc = Some (bc1, a1)"
      and b: "video_burst core vfile ts0 tk (k + 2) rest bc1 = Some (bc2, a2, m)"
      and acts: "acts = a1 @ a2"
      using Cons.prems by (auto split: option.splits)
    show ?thesis using send_packet_acts[OF s] Cons.IH[OF b] acts by simp
  qed
qed

lemma playout_audio_acts:
  "playout_audio core afile frames tk st = Some (st', acts) \<Longrightarrow> payloads acts = []"
  by (auto simp: playout_audio_def Let_def split: if_splits option.splits dest: send_packet_acts)

lemma playout_video_acts:
  "playout_video core vfile frames tk st = Some (st', acts) \<Longrightarrow> payloads acts = []"
  by (auto simp: playout_video_def Let_def split: if_splits option.splits dest: video_burst_acts)

lemma playout_round_acts:
  assumes "playout_round core afile vfile af vf tk st = Some (st', acts)"
  shows "payloads acts = []"
proof -
  from assms obtain st1 a1 a2 where
    a: "playout_audio core afile af tk (st\<lparr>asent := False, vsent := False\<rparr>) = Some (st1, a1)"
    and v: "playout_video core vfile vf tk st1 = Some (st', a2)"
    and acts: "acts = (if \<not> asent st \<and> \<not> vsent st then [USleep 5000] else []) @ a1 @ a2"
    by (auto simp: playout_round_def Let_def split: option.splits)
  show ?thesis using playout_audio_acts[OF a] playout_video_acts[OF v] by (simp add: acts)
qed

lemma playout_loop_acts:
  "playout_loop core afile vfile af vf ticks st = Done (st', acts) \<Longrightarrow> payloads acts = []"
proof (induction ticks arbitrary: st acts)
  case Nil
  then show ?case by simp
next
  case (Cons tk ticks)
  show ?case
  proof (cases "playout_goes_on af vf tk st")
    case False
    then show ?thesis using Cons.prems by simp
  next
    case True
    then obtain st1 a1 a2 where
      r: "playout_round core afile vfile af vf tk st = Some (st1, a1)"
      and l: "playout_loop core afile vfile af vf ticks st1 = Done (st', a2)"
      and acts: "acts = a1 @ a2"
      using Cons.prems by (auto split: option.splits run.splits)
    show ?thesis using playout_round_acts[OF r] Cons.IH[OF l] acts by simp
  qed
qed

lemma playout_loop_stops:
  "\<exists>tk \<in> set ticks. stops tk \<Longrightarrow> playout_loop core afile vfile af vf ticks st \<noteq> Running"
proof (induction ticks arbitrary: st)
  case Nil
  then show ?case by simp
next
  case (Cons tk ticks)
  show ?case
  proof (cases "stops tk")
    case True
    then have "\<not> playout_goes_on af vf tk st" by (auto simp: stops_def playout_goes_on_def)
    then show ?thesis by simp
  next
    case False
    then have "\<exists>tk \<in> set ticks. stops tk" using Cons.prems by simp
    from Cons.IH[OF this] show ?thesis
      by (auto split: option.splits run.splits)
  qed
qed


section \<open>The parser on recordings\<close>

text \<open>
  Claim C1, as the code has it. Whenever \<open>janus_play_get_frames\<close> returns a chain, the
  chain is not empty and every adjacent pair along \<open>next\<close> has the earlier \<open>ts\<close>
  strictly below the later one, or equal \<open>ts\<close> and the later descriptor not ordered
  in front of the earlier one by the wraparound rule on sequence numbers (that is:
  the pair is in wraparound order, or the sequence numbers are equal or exactly
  10000 apart, see \<open>chain_order_alt\<close>).
\<close>

theorem chain_is_ordered:
  assumes "janus_play_get_frames fs info_ok dir filename = Returned (Some chain)"
  shows "chain \<noteq> [] \<and> successively chain_order chain"
proof -
  from get_frames_Some[OF assms] obtain fl where p: "parse_file info_ok fl = Returned (Some chain)"
    by metis
  then have "chain \<noteq> []"
    by (auto simp: parse_file_def chain_head_def split: round.splits if_splits)
  moreover from parse_file_index_ok[OF p] have "successively chain_order chain"
    by (metis index_ok_def)
  ultimately show ?thesis by simp
qed

lemma reordered_parse:
  "janus_play_get_frames recordings any_info (Some ''/rec'') (Some ''reordered.mjr'') =
     Returned (Some [\<lparr>seq = 1, ts = 1000, len = 12, offset = 47\<rparr>,
                     \<lparr>seq = 65535, ts = 1960, len = 12, offset = 69\<rparr>,
                     \<lparr>seq = 2, ts = 1960, len = 12, offset = 25\<rparr>,
                     \<lparr>seq = 3, ts = 2920, len = 13, offset = 91\<rparr>])"
  by code_simp

theorem chain_is_ordered_witness:
  "successively chain_order
     [\<lparr>seq = 1, ts = 1000, len = 12, offset = 47\<rparr>, \<lparr>seq = 65535, ts = 1960, len = 12, offset = 69\<rparr>,
      \<lparr>seq = 2, ts = 1960, len = 12, offset = 25\<rparr>, \<lparr>seq = 3, ts = 2920, len = 13, offset = 91\<rparr>]"
  using chain_is_ordered [OF reordered_parse] by simp

text \<open>
  Claim C1 as stated fails on a recording that holds the same RTP packet twice: both
  descriptors are indexed, next to each other, with equal \<open>ts\<close> and equal \<open>seq\<close>.
\<close>

theorem duplicate_packets_not_seq_ordered:
  "janus_play_get_frames recordings any_info (Some ''/rec'') (Some ''dup'') =
     Returned (Some [\<lparr>seq = 1, ts = 1000, len = 16, offset = 36\<rparr>,
                     \<lparr>seq = 1, ts = 1000, len = 16, offset = 10\<rparr>]) \<and>
   \<not> claimed_order \<lparr>seq = 1, ts = 1000, len = 16, offset = 36\<rparr> \<lparr>seq = 1, ts = 1000, len = 16, offset = 10\<rparr>"
  by (rule conjI, code_simp, simp add: claimed_order_def seq_ordered_def)

text \<open>
  Claim C3, as the code has it. Every descriptor of a returned chain starts 10 bytes
  behind a record start that lies in the file and has a length of at least 12;
  \<open>offset + len \<le> file_size\<close> holds for it unless it is the descriptor with the
  greatest offset (the last record of the walk, whose length is not checked against
  the file); and where it holds, the \<open>len\<close> bytes at \<open>offset\<close> are all there, they
  follow the record's length field, which is \<open>len\<close>, and they carry the sequence
  number of the descriptor.
\<close>

theorem descriptor_reaches_file:
  assumes fs: "fs (source_path d f) = Some file"
    and parsed: "janus_play_get_frames fs info_ok (Some d) (Some f) = Returned (Some chain)"
    and p: "p \<in> set chain"
  shows "10 \<le> offset p \<and> offset p - 10 < length file \<and> 12 \<le> unat (len p) \<and>
     (offset p + unat (len p) \<le> length file \<or> (\<forall>q \<in> set chain. offset q \<le> offset p)) \<and>
     (offset p + unat (len p) \<le> length file \<longrightarrow>
        length (rtp_bytes file p) = unat (len p) \<and>
        len p = be16 (file ! (offset p - 2)) (file ! (offset p - 1)) \<and>
        seq p = rtp_seq_number (rtp_bytes file p))"
proof -
  have pf: "parse_file info_ok file = Returned (Some chain)"
    using parsed fs by (simp add: janus_play_get_frames_def)
  from parse_file_index_ok[OF pf] obtain reset first_ts s2 where
    ch: "chain = i_chain s2" and ok: "index_ok reset first_ts file s2" by metis
  from ok p ch obtain start where st: "start < length file" "indexed_at reset first_ts file start p"
    by (auto simp: index_ok_def)
  have last: "offset p + unat (len p) \<le> length file \<or> (\<forall>q \<in> set chain. offset q \<le> offset p)"
    using ok p ch by (auto simp: index_ok_def)
  have o: "offset p = start + 10" and l12: "12 \<le> unat (len p)"
    using st(2) by (simp_all add: indexed_at_def)
  have inside: "length (rtp_bytes file p) = unat (len p) \<and>
        len p = be16 (file ! (offset p - 2)) (file ! (offset p - 1)) \<and>
        seq p = rtp_seq_number (rtp_bytes file p)"
    if fit: "offset p + unat (len p) \<le> length file"
  proof -
    have a: "start + 10 \<le> length file" "start + 14 \<le> length file" using fit o l12 by simp_all
    have 1: "length (rtp_bytes file p) = unat (len p)" using fit by (simp add: rtp_bytes_def)
    have 2: "len p = be16 (file ! (start + 8)) (file ! (start + 9))"
      using st(2) a by (simp add: indexed_at_def)
    have 3: "seq p = be16 (file ! (start + 12)) (file ! (start + 13))"
      using st(2) a by (simp add: indexed_at_def)
    have "rtp_bytes file p ! 2 = file ! (offset p + 2)" "rtp_bytes file p ! 3 = file ! (offset p + 3)"
      using fit l12 by (simp_all add: rtp_bytes_def)
    then have 4: "rtp_seq_number (rtp_bytes file p) = be16 (file ! (start + 12)) (file ! (start + 13))"
      by (simp add: rtp_seq_number_def o add.commute)
    have 5: "offset p - 2 = start + 8" "offset p - 1 = start + 9" using o by simp_all
    show ?thesis using 1 2 3 4 by (simp add: o add.commute)
  qed
  show ?thesis using o st(1) l12 last inside by simp
qed

lemma recordings_reordered: "recordings (source_path ''/rec'' ''reordered.mjr'') = Some reordered_file"
  by (simp add: recordings_def source_path_def)

theorem descriptor_reaches_file_witness:
  "length (rtp_bytes reordered_file \<lparr>seq = 3, ts = 2920, len = 13, offset = 91\<rparr>) = 13 \<and>
   rtp_seq_number (rtp_bytes reordered_file \<lparr>seq = 3, ts = 2920, len = 13, offset = 91\<rparr>) = 3"
proof -
  have "length reordered_file = 104" by code_simp
  then show ?thesis
    using descriptor_reaches_file [OF recordings_reordered reordered_parse,
      of "\<lparr>seq = 3, ts = 2920, len = 13, offset = 91\<rparr>"]
    by simp
qed

text \<open>
  Claim C3 as stated fails on a recording whose last record announces 100 bytes and
  holds 16: the descriptor has \<open>offset = 10\<close> and \<open>len = 100\<close> in a file of 26 bytes.
\<close>

theorem truncated_record_overruns_file:
  "janus_play_get_frames recordings any_info (Some ''/rec'') (Some ''truncated'') =
     Returned (Some [\<lparr>seq = 1, ts = 1000, len = 100, offset = 10\<rparr>]) \<and>
   length truncated_file = 26 \<and>
   \<not> offset \<lparr>seq = 1, ts = 1000, len = 100, offset = 10\<rparr> +
       unat (len \<lparr>seq = 1, ts = 1000, len = 100, offset = 10\<rparr>) \<le> length truncated_file"
proof -
  have 1: "janus_play_get_frames recordings any_info (Some ''/rec'') (Some ''truncated'') =
     Returned (Some [\<lparr>seq = 1, ts = 1000, len = 100, offset = 10\<rparr>])" by code_simp
  have 2: "length truncated_file = 26" by code_simp
  show ?thesis using 1 2 by simp
qed

text \<open>
  Claim C9. The recording ends behind the length field of a record that announces
  12 bytes: the read of the RTP header in pass 2 returns 0 bytes, the test
  \<open>bytes < 0\<close> does not fire, and a descriptor is built from what \<open>prebuffer\<close> still
  holds of the tag (\<open>seq\<close> is \<open>ET\<close>, \<open>ts\<close> is \<open>ECHO\<close>). The chain built so far was empty.
\<close>

theorem short_header_read_is_indexed:
  "snd (fread (replicate 1500 0) 16 headless_file 10) = 0 \<and>
   janus_play_get_frames recordings any_info (Some ''/rec'') (Some ''headless'') =
     Returned (Some [\<lparr>seq = 17748, ts = 1162037327, len = 12, offset = 10\<rparr>])"
  by (rule conjI; code_simp)

text \<open>
  The recording \<open>two_info_file\<close> evaluated with the check that accepts its header.
\<close>

lemma two_info_text: "info_text two_info_file initial_scan = map byte_of opus_info"
  by code_simp

lemma one_info_text: "info_text one_info_file initial_scan = map byte_of opus_info"
  by code_simp

lemma two_info_rounds:
  "case pass1_round opus_info_only two_info_file initial_scan of
     Continue s1 \<Rightarrow> s_offset s1 = 42 \<and> s_parsed_header s1 \<and>
       (case pass1_round opus_info_only two_info_file s1 of
          Continue s2 \<Rightarrow> s_offset s2 = 68 \<and> s_last_ts s2 = 0xF0000000 | _ \<Rightarrow> False)
   | _ \<Rightarrow> False"
  by code_simp

lemma one_info_round:
  "case pass1_round opus_info_only one_info_file initial_scan of
     Continue s1 \<Rightarrow> s_parsed_header s1 | _ \<Rightarrow> False"
  by code_simp

lemma two_info_scan:
  "case pass1 opus_info_only two_info_file initial_scan of
     Continue s \<Rightarrow> s_reset s = 1000 | _ \<Rightarrow> False"
  by code_simp

lemma two_info_parse:
  "parse_file opus_info_only two_info_file =
     Returned (Some [\<lparr>seq = 1, ts = 4294968296, len = 12, offset = 78\<rparr>])"
  by code_simp

lemma one_info_parse:
  "parse_file opus_info_only one_info_file =
     Returned (Some [\<lparr>seq = 1, ts = 1000, len = 12, offset = 52\<rparr>])"
  by code_simp

text \<open>
  Claim C8. A recording whose first record is the valid info header \<open>opus_info\<close>,
  followed by a second info record and one RTP packet with timestamp 1000, under any
  check that accepts the header. The first round sets \<open>parsed_header\<close>; the round on
  the second info record reads bytes 4 to 7 of its payload as an RTP timestamp
  (\<open>last_ts\<close> becomes \<open>0xF0000000\<close>), so pass 1 ends with \<open>reset = 1000\<close> and the only
  descriptor gets \<open>ts = 2^32 + 1000\<close>; without the second info record it gets
  \<open>ts = 1000\<close>.
\<close>

theorem later_info_record_scanned_as_rtp:
  assumes "info_ok (map byte_of opus_info)"
  shows "(case pass1_round info_ok two_info_file initial_scan of
            Continue s1 \<Rightarrow> s_offset s1 = 42 \<and> s_parsed_header s1 \<and>
              (case pass1_round info_ok two_info_file s1 of
                 Continue s2 \<Rightarrow> s_offset s2 = 68 \<and> s_last_ts s2 = 0xF0000000 | _ \<Rightarrow> False)
          | _ \<Rightarrow> False) \<and>
         (case pass1 info_ok two_info_file initial_scan of
            Continue s \<Rightarrow> s_reset s = 1000 | _ \<Rightarrow> False) \<and>
         parse_file info_ok two_info_file =
           Returned (Some [\<lparr>seq = 1, ts = 4294968296, len = 12, offset = 78\<rparr>]) \<and>
         parse_file info_ok one_info_file =
           Returned (Some [\<lparr>seq = 1, ts = 1000, len = 12, offset = 52\<rparr>])"
proof -
  have two: "info_ok (info_text two_info_file initial_scan) =
      opus_info_only (info_text two_info_file initial_scan)"
    using assms by (simp add: two_info_text opus_info_only_def)
  have one: "info_ok (info_text one_info_file initial_scan) =
      opus_info_only (info_text one_info_file initial_scan)"
    using assms by (simp add: one_info_text opus_info_only_def)
  have two_parsed: "case pass1_round opus_info_only two_info_file initial_scan of
      Continue s \<Rightarrow> s_parsed_header s | _ \<Rightarrow> True"
    using two_info_rounds by (simp split: round.splits)
  have one_parsed: "case pass1_round opus_info_only one_info_file initial_scan of
      Continue s \<Rightarrow> s_parsed_header s | _ \<Rightarrow> True"
    using one_info_round by (simp split: round.splits)
  have first: "pass1_round info_ok two_info_file initial_scan =
      pass1_round opus_info_only two_info_file initial_scan"
    using two by (rule pass1_round_info_text)
  have rounds: "case pass1_round info_ok two_info_file initial_scan of
      Continue s1 \<Rightarrow> s_offset s1 = 42 \<and> s_parsed_header s1 \<and>
        (case pass1_round info_ok two_info_file s1 of
           Continue s2 \<Rightarrow> s_offset s2 = 68 \<and> s_last_ts s2 = 0xF0000000 | _ \<Rightarrow> False)
    | _ \<Rightarrow> False"
  proof (cases "pass1_round opus_info_only two_info_file initial_scan")
    case (Continue s1)
    then have s1: "s_offset s1 = 42 \<and> s_parsed_header s1 \<and>
        (case pass1_round opus_info_only two_info_file s1 of
           Continue s2 \<Rightarrow> s_offset s2 = 68 \<and> s_last_ts s2 = 0xF0000000 | _ \<Rightarrow> False)"
      using two_info_rounds by simp
    then have "pass1_round info_ok two_info_file s1 = pass1_round opus_info_only two_info_file s1"
      by (simp add: pass1_round_parsed[of s1 info_ok two_info_file opus_info_only])
    then show ?thesis using first Continue s1 by simp
  qed (use two_info_rounds in simp_all)
  have "pass1 info_ok two_info_file initial_scan = pass1 opus_info_only two_info_file initial_scan"
    using two two_parsed by (rule pass1_info_text)
  then have scan: "case pass1 info_ok two_info_file initial_scan of
      Continue s \<Rightarrow> s_reset s = 1000 | _ \<Rightarrow> False"
    using two_info_scan by simp
  have "parse_file info_ok two_info_file = parse_file opus_info_only two_info_file"
    using two two_parsed by (rule parse_file_info_text)
  then have p2: "parse_file info_ok two_info_file =
      Returned (Some [\<lparr>seq = 1, ts = 4294968296, len = 12, offset = 78\<rparr>])"
    using two_info_parse by simp
  have "parse_file info_ok one_info_file = parse_file opus_info_only one_info_file"
    using one one_parsed by (rule parse_file_info_text)
  then have p1: "parse_file info_ok one_info_file =
      Returned (Some [\<lparr>seq = 1, ts = 1000, len = 12, offset = 52\<rparr>])"
    using one_info_parse by simp
  from rounds scan p2 p1 show ?thesis by (intro conjI)
qed

theorem later_info_record_scanned_as_rtp_witness:
  "opus_info_only (map byte_of opus_info) \<and> \<not> opus_info_only (map byte_of ''{}'') \<and>
   parse_file opus_info_only two_info_file \<noteq> parse_file opus_info_only one_info_file"
  using later_info_record_scanned_as_rtp [of opus_info_only]
  by (simp add: opus_info_only_def opus_info_def)

section \<open>Timestamp resets\<close>

text \<open>
  Claim C2, as the code has it. First part, unchanged: a descriptor whose RTP header
  lies in the file has the raw timestamp as \<open>ts\<close> when pass 1 ended with
  \<open>reset = 0\<close>, and otherwise the raw timestamp when it is above \<open>first_ts\<close> and
  \<open>2^32\<close> plus the raw timestamp when it is not. Second part, within what the two
  heuristics can tell apart (\<open>rise_reset_rise\<close>): for a legacy recording whose
  timestamps rise strictly from a first value above \<open>10^6\<close>, fall once by more than
  \<open>2 * 10^9\<close> to a nonzero value and rise strictly again without exceeding the first
  value minus \<open>10^6\<close>, the chain lists the packets in file order, the packets before
  the reset with their raw timestamps and the packets after it lifted by \<open>2^32\<close>, and
  its \<open>ts\<close> sequence is strictly increasing.
\<close>

theorem timestamps_lifted_across_reset:
  "(\<forall>info_ok file s chain p.
      pass1 info_ok file initial_scan = Continue s \<and>
      parse_file info_ok file = Returned (Some chain) \<and> p \<in> set chain \<and> offset p + 8 \<le> length file \<longrightarrow>
      unat (ts p) =
        (let raw = rtp_timestamp (drop (offset p) file)
         in if s_reset s = 0 then unat raw
            else if raw > s_first_ts s then unat raw
            else 2 ^ 32 + unat raw)) \<and>
   (\<forall>info_ok kind pre post.
      legacy_kind kind \<and> rtp_sized (pre @ post) \<and> rise_reset_rise pre post \<longrightarrow>
      (\<exists>chain. parse_file info_ok (legacy_file kind (pre @ post)) = Returned (Some chain) \<and>
         map seq chain = map rtp_seq_number (pre @ post) \<and>
         map (\<lambda>p. unat (ts p)) chain =
           map (\<lambda>r. unat (rtp_timestamp r)) pre @ map (\<lambda>r. 2 ^ 32 + unat (rtp_timestamp r)) post \<and>
         sorted_wrt (<) (map ts chain)))"
proof (intro conjI allI impI)
  fix info_ok :: "byte list \<Rightarrow> bool" and fl s chain p
  assume a: "pass1 info_ok fl initial_scan = Continue s \<and>
      parse_file info_ok fl = Returned (Some chain) \<and> p \<in> set chain \<and> offset p + 8 \<le> length fl"
  then have "ts p = frame_ts (s_reset s) (s_first_ts s) (rtp_timestamp (drop (offset p) fl))"
    by (intro frame_ts_of_descriptor) auto
  then show "unat (ts p) =
        (let raw = rtp_timestamp (drop (offset p) fl)
         in if s_reset s = 0 then unat raw
            else if raw > s_first_ts s then unat raw
            else 2 ^ 32 + unat raw)"
    by (simp add: unat_frame_ts Let_def)
next
  fix info_ok :: "byte list \<Rightarrow> bool" and kind pre post
  assume a: "legacy_kind kind \<and> rtp_sized (pre @ post) \<and> rise_reset_rise pre post"
  then show "\<exists>chain. parse_file info_ok (legacy_file kind (pre @ post)) = Returned (Some chain) \<and>
         map seq chain = map rtp_seq_number (pre @ post) \<and>
         map (\<lambda>p. unat (ts p)) chain =
           map (\<lambda>r. unat (rtp_timestamp r)) pre @ map (\<lambda>r. 2 ^ 32 + unat (rtp_timestamp r)) post \<and>
         sorted_wrt (<) (map ts chain)"
    by (intro wrap_recovery) (simp_all add: legacy_kind_def rtp_sized_def rise_reset_rise_def)
qed

lemma wrap_file_scan:
  "case pass1 any_info (legacy_file ''audio'' (wrap_pre @ wrap_post)) initial_scan of
     Continue s \<Rightarrow> s_reset s = 624 \<and> s_first_ts s = 4293966000 | _ \<Rightarrow> False"
  by code_simp

lemma wrap_file_parse:
  "parse_file any_info (legacy_file ''audio'' (wrap_pre @ wrap_post)) =
     Returned (Some [\<lparr>seq = 1, ts = 4294966000, len = 12, offset = 25\<rparr>,
                     \<lparr>seq = 2, ts = 4294966960, len = 15, offset = 47\<rparr>,
                     \<lparr>seq = 3, ts = 4294967920, len = 12, offset = 72\<rparr>,
                     \<lparr>seq = 4, ts = 4294968880, len = 14, offset = 94\<rparr>])"
  by code_simp

lemma wrap_stamps:
  "map rtp_timestamp wrap_pre = [4294966000, 4294966960]"
  "map rtp_timestamp wrap_post = [624, 1584]"
  "rtp_timestamp (hd wrap_pre) = 4294966000"
  "rtp_timestamp (last wrap_pre) = 4294966960"
  "rtp_timestamp (hd wrap_post) = 624"
  "rtp_timestamp (drop 72 (legacy_file ''audio'' (wrap_pre @ wrap_post))) = 624"
  by code_simp+

lemma wrap_file_shape:
  "legacy_kind ''audio'' \<and> rtp_sized (wrap_pre @ wrap_post) \<and> rise_reset_rise wrap_pre wrap_post"
proof -
  have 1: "rtp_sized (wrap_pre @ wrap_post)"
    by (simp add: rtp_sized_def wrap_pre_def wrap_post_def rtp_packet_def)
  have "\<forall>t \<in> set (map rtp_timestamp wrap_post). t \<le> 4294966000 - 1000000"
    unfolding wrap_stamps(2) by simp
  then have 2: "\<forall>r \<in> set wrap_post. rtp_timestamp r \<le> rtp_timestamp (hd wrap_pre) - 1000000"
    by (simp add: wrap_stamps(3))
  have 3: "wrap_pre \<noteq> []" "wrap_post \<noteq> []" by (simp_all add: wrap_pre_def wrap_post_def)
  show ?thesis
    unfolding rise_reset_rise_def wrap_stamps(1-5) using 1 2 3
    by (simp add: legacy_kind_def wrap_stamps(3))
qed

lemma wrap_file_stamps:
  "map (\<lambda>r. unat (rtp_timestamp r)) wrap_pre @ map (\<lambda>r. 2 ^ 32 + unat (rtp_timestamp r)) wrap_post
     = [4294966000, 4294966960, 4294967920, 4294968880]"
proof -
  have "map (\<lambda>r. unat (rtp_timestamp r)) wrap_pre = map unat (map rtp_timestamp wrap_pre)"
       "map (\<lambda>r. 2 ^ 32 + unat (rtp_timestamp r)) wrap_post
          = map (\<lambda>t. 2 ^ 32 + unat t) (map rtp_timestamp wrap_post)"
    by simp_all
  then show ?thesis unfolding wrap_stamps(1,2) by simp
qed

lemma wrap_file_length: "length (legacy_file ''audio'' (wrap_pre @ wrap_post)) = 108"
  by code_simp

theorem timestamps_lifted_across_reset_witness:
  "(\<exists>chain. parse_file any_info (legacy_file ''audio'' (wrap_pre @ wrap_post)) = Returned (Some chain) \<and>
      map (\<lambda>p. unat (ts p)) chain = [4294966000, 4294966960, 4294967920, 4294968880] \<and>
      sorted_wrt (<) (map ts chain)) \<and>
   unat (ts \<lparr>seq = 3, ts = 4294967920, len = 12, offset = 72\<rparr>) = 2 ^ 32 + 624"
proof -
  let ?file = "legacy_file ''audio'' (wrap_pre @ wrap_post)"
  let ?p = "\<lparr>seq = 3, ts = 4294967920, len = 12, offset = 72\<rparr>"
  obtain s where s: "pass1 any_info ?file initial_scan = Continue s"
    "s_reset s = 624" "s_first_ts s = 4293966000"
    using wrap_file_scan by (auto split: round.splits)
  have prem: "pass1 any_info ?file initial_scan = Continue s \<and>
      parse_file any_info ?file = Returned (Some [\<lparr>seq = 1, ts = 4294966000, len = 12, offset = 25\<rparr>,
                     \<lparr>seq = 2, ts = 4294966960, len = 15, offset = 47\<rparr>, ?p,
                     \<lparr>seq = 4, ts = 4294968880, len = 14, offset = 94\<rparr>]) \<and>
      ?p \<in> set [\<lparr>seq = 1, ts = 4294966000, len = 12, offset = 25\<rparr>,
                     \<lparr>seq = 2, ts = 4294966960, len = 15, offset = 47\<rparr>, ?p,
                     \<lparr>seq = 4, ts = 4294968880, len = 14, offset = 94\<rparr>] \<and>
      offset ?p + 8 \<le> length ?file"
    using s(1) wrap_file_parse by (simp add: wrap_file_length)
  have 1: "unat (ts ?p) = 2 ^ 32 + 624"
    using timestamps_lifted_across_reset [THEN conjunct1, rule_format, OF prem]
    by (simp add: s(2,3) wrap_stamps(6))
  have 2: "\<exists>chain. parse_file any_info ?file = Returned (Some chain) \<and>
         map seq chain = map rtp_seq_number (wrap_pre @ wrap_post) \<and>
         map (\<lambda>p. unat (ts p)) chain =
           map (\<lambda>r. unat (rtp_timestamp r)) wrap_pre @ map (\<lambda>r. 2 ^ 32 + unat (rtp_timestamp r)) wrap_post \<and>
         sorted_wrt (<) (map ts chain)"
    by (rule timestamps_lifted_across_reset [THEN conjunct2, rule_format, OF wrap_file_shape])
  then obtain chain where c: "parse_file any_info ?file = Returned (Some chain)"
    "map (\<lambda>p. unat (ts p)) chain =
           map (\<lambda>r. unat (rtp_timestamp r)) wrap_pre @ map (\<lambda>r. 2 ^ 32 + unat (rtp_timestamp r)) wrap_post"
    "sorted_wrt (<) (map ts chain)" by blast
  have "map (\<lambda>p. unat (ts p)) chain = [4294966000, 4294966960, 4294967920, 4294968880]"
    unfolding c(2) by (rule wrap_file_stamps)
  then have "\<exists>chain. parse_file any_info ?file = Returned (Some chain) \<and>
      map (\<lambda>p. unat (ts p)) chain = [4294966000, 4294966960, 4294967920, 4294968880] \<and>
      sorted_wrt (<) (map ts chain)"
    using c(1,3) by (intro exI[of _ chain]) simp
  then show ?thesis using 1 by (rule conjI)
qed

text \<open>
  The second part of claim C2 as stated fails on a recording whose timestamps are
  500, 3000000000, 100, 500: they rise, reset once to a small value and rise again,
  but \<open>first_ts\<close> is 500, so the first packet is taken for one behind the reset and
  lifted like the last one, and the chain holds \<open>ts = 2^32 + 500\<close> twice, behind the
  packet that follows the first one in the file.
\<close>

theorem early_start_not_monotonic:
  "parse_file any_info early_start_file =
     Returned (Some [\<lparr>seq = 2, ts = 3000000000, len = 12, offset = 47\<rparr>,
                     \<lparr>seq = 3, ts = 4294967396, len = 12, offset = 69\<rparr>,
                     \<lparr>seq = 1, ts = 4294967796, len = 12, offset = 25\<rparr>,
                     \<lparr>seq = 4, ts = 4294967796, len = 12, offset = 91\<rparr>]) \<and>
   \<not> sorted_wrt (<) (map ts [\<lparr>seq = 2, ts = 3000000000, len = 12, offset = 47\<rparr>,
                     \<lparr>seq = 3, ts = 4294967396, len = 12, offset = 69\<rparr>,
                     \<lparr>seq = 1, ts = 4294967796, len = 12, offset = 25\<rparr>,
                     \<lparr>seq = 4, ts = 4294967796, len = 12, offset = 91\<rparr>])"
  by (rule conjI, code_simp, simp)

text \<open>
  Claim C7, as the code has it. For a frame with timestamp \<open>t\<close> read while \<open>last_ts\<close>
  is not 0: when \<open>t < last_ts\<close>, \<open>reset\<close> becomes \<open>t\<close> exactly when
  \<open>last_ts - t > 2 * 10^9\<close>; when \<open>t \<ge> last_ts\<close>, \<open>reset\<close> becomes \<open>t\<close> exactly when
  \<open>t < reset\<close>; in every other case it keeps its value, also when \<open>t\<close> is below a
  nonzero \<open>reset\<close>. So \<open>reset\<close> is the smallest timestamp seen from the reset on
  when the timestamps from the reset frame on never decrease: on a legacy
  recording where the frame \<open>r\<close> is more than \<open>2 * 10^9\<close> below its predecessor and no
  later timestamp is below an earlier one, pass 1 ends with \<open>reset\<close> equal to the
  timestamp of \<open>r\<close>, which is at most every timestamp from \<open>r\<close> on.
\<close>

theorem reset_scan_rule:
  "(\<forall>t s. s_last_ts s \<noteq> 0 \<longrightarrow>
      s_last_ts (track_timestamp t s) = t \<and>
      s_reset (track_timestamp t s) =
        (if t < s_last_ts s then (if 2000000000 < s_last_ts s - t then t else s_reset s)
         else if t < s_reset s then t else s_reset s)) \<and>
   (\<forall>info_ok kind pre r post.
      legacy_kind kind \<and> rtp_sized (pre @ r # post) \<and> pre \<noteq> [] \<and>
      rtp_timestamp r < rtp_timestamp (last pre) \<and>
      2000000000 < rtp_timestamp (last pre) - rtp_timestamp r \<and>
      sorted_wrt (\<le>) (map rtp_timestamp (r # post)) \<longrightarrow>
      (\<exists>s. pass1 info_ok (legacy_file kind (pre @ r # post)) initial_scan = Continue s \<and>
           s_reset s = rtp_timestamp r \<and> (\<forall>x \<in> set (r # post). s_reset s \<le> rtp_timestamp x)))"
proof (intro conjI allI impI)
  fix t :: "32 word" and s :: scan
  assume "s_last_ts s \<noteq> 0"
  from track_later[OF this, of t]
  show "s_last_ts (track_timestamp t s) = t"
    and "s_reset (track_timestamp t s) =
        (if t < s_last_ts s then (if 2000000000 < s_last_ts s - t then t else s_reset s)
         else if t < s_reset s then t else s_reset s)"
    by (simp_all add: tracking_def)
next
  fix info_ok :: "byte list \<Rightarrow> bool" and kind pre r post
  assume "legacy_kind kind \<and> rtp_sized (pre @ r # post) \<and> pre \<noteq> [] \<and>
      rtp_timestamp r < rtp_timestamp (last pre) \<and>
      2000000000 < rtp_timestamp (last pre) - rtp_timestamp r \<and>
      sorted_wrt (\<le>) (map rtp_timestamp (r # post))"
  then show "\<exists>s. pass1 info_ok (legacy_file kind (pre @ r # post)) initial_scan = Continue s \<and>
           s_reset s = rtp_timestamp r \<and> (\<forall>x \<in> set (r # post). s_reset s \<le> rtp_timestamp x)"
    by (intro reset_is_smallest) (simp_all add: legacy_kind_def rtp_sized_def)
qed

lemma flat_stamps:
  "rtp_timestamp (rtp_packet 3 100 []) = 100"
  "rtp_timestamp (last flat_pre) = 3000000000"
  "map rtp_timestamp flat_post = [200, 200, 1160]"
  by code_simp+

lemma flat_file_shape:
  "legacy_kind ''video'' \<and> rtp_sized (flat_pre @ rtp_packet 3 100 [] # flat_post) \<and> flat_pre \<noteq> [] \<and>
      rtp_timestamp (rtp_packet 3 100 []) < rtp_timestamp (last flat_pre) \<and>
      2000000000 < rtp_timestamp (last flat_pre) - rtp_timestamp (rtp_packet 3 100 []) \<and>
      sorted_wrt (\<le>) (map rtp_timestamp (rtp_packet 3 100 [] # flat_post))"
proof -
  have "rtp_sized (flat_pre @ rtp_packet 3 100 [] # flat_post)"
    by (simp add: rtp_sized_def flat_pre_def flat_post_def rtp_packet_def)
  moreover have "flat_pre \<noteq> []" by (simp add: flat_pre_def)
  ultimately show ?thesis by (simp add: legacy_kind_def flat_stamps)
qed

theorem reset_scan_rule_witness:
  "(\<exists>s. pass1 any_info (legacy_file ''video'' (flat_pre @ rtp_packet 3 100 [] # flat_post)) initial_scan
          = Continue s \<and> s_reset s = 100) \<and>
   s_reset (track_timestamp 50 (initial_scan\<lparr>s_last_ts := 200, s_reset := 100\<rparr>)) = 100 \<and>
   s_reset (track_timestamp 250 (initial_scan\<lparr>s_last_ts := 200, s_reset := 300\<rparr>)) = 250"
proof -
  from reset_scan_rule [THEN conjunct2, rule_format, OF flat_file_shape, of any_info]
  have 1: "\<exists>s. pass1 any_info (legacy_file ''video'' (flat_pre @ rtp_packet 3 100 [] # flat_post)) initial_scan
          = Continue s \<and> s_reset s = 100"
    by (auto simp: flat_stamps(1))
  have 2: "s_reset (track_timestamp 50 (initial_scan\<lparr>s_last_ts := 200, s_reset := 100\<rparr>)) = 100"
    using reset_scan_rule [THEN conjunct1, rule_format, of "initial_scan\<lparr>s_last_ts := 200, s_reset := 100\<rparr>" 50]
    by simp
  have 3: "s_reset (track_timestamp 250 (initial_scan\<lparr>s_last_ts := 200, s_reset := 300\<rparr>)) = 250"
    using reset_scan_rule [THEN conjunct1, rule_format, of "initial_scan\<lparr>s_last_ts := 200, s_reset := 300\<rparr>" 250]
    by simp
  show ?thesis using 1 2 3 by (intro conjI)
qed

text \<open>
  Claim C7 as stated fails on a recording with the timestamps 3000000000, 100, 200,
  50: the frame with timestamp 50 comes later than the reset and is below the
  nonzero \<open>reset = 100\<close>, but it is also below \<open>last_ts = 200\<close>, by less than
  \<open>2 * 10^9\<close>; \<open>reset\<close> is not refined and pass 1 ends with \<open>reset = 100\<close>, not the
  smallest timestamp seen behind the reset.
\<close>

theorem reset_not_refined_below_last:
  "(case pass1 any_info refine_file initial_scan of
      Continue s \<Rightarrow> s_reset s = 100 \<and> s_last_ts s = 50 | _ \<Rightarrow> False) \<and>
   s_reset (track_timestamp 50 (initial_scan\<lparr>s_last_ts := 200, s_reset := 100\<rparr>)) \<noteq> 50"
  by (rule conjI, code_simp, simp add: track_timestamp_def initial_scan_def)

section \<open>Events and pacing of the worker\<close>

text \<open>
  Claim C10, as the code has it. A worker that gets past the returns in front of the
  loop and returns has made, as its first call, the event with the payload
  \<open>{"play": "start"}\<close> and, as its last call, the event with the payload
  \<open>{"play": "stopped"}\<close> when \<open>stop_playing\<close> is set behind the loop and
  \<open>{"play": "ended"}\<close> otherwise, and no call in between is an event. A worker that
  does not get past them (no session, no recording, a recorder, no frames, or a file
  that does not open) returns without any call and leaves the session as it was.
  The loop is left as soon as a round observes the session or the recording
  destroyed, the session inactive or the stop flag. The payloads are the string
  literals of the source: each has a space behind the colon.
\<close>

theorem playout_events:
  "(\<forall>w data data' trace.
      janus_play_playout_thread w data = Done (data', trace) \<longrightarrow>
      (if playout_starts w data then
         (\<exists>session acts.
            data = Some session \<and>
            trace = Event (session_id session) (transaction_id session) json_start # acts @
                    [Event (session_id session) (transaction_id session)
                       (if w_exit_stop_playing w then json_stopped else json_ended)] \<and>
            payloads acts = [] \<and>
            payloads trace = [json_start, if w_exit_stop_playing w then json_stopped else json_ended])
       else trace = [] \<and> data' = data)) \<and>
   (\<forall>w data. \<not> playout_starts w data \<longrightarrow> janus_play_playout_thread w data = Done (data, [])) \<and>
   (\<forall>w data. (\<exists>tk \<in> set (w_ticks w). stops tk) \<longrightarrow> janus_play_playout_thread w data \<noteq> Running) \<and>
   json_start = ''{\"play\": \"start\"}'' \<and> json_stopped = ''{\"play\": \"stopped\"}'' \<and>
   json_ended = ''{\"play\": \"ended\"}''"
proof (intro conjI allI impI)
  fix w :: world and data data' trace
  assume d: "janus_play_playout_thread w data = Done (data', trace)"
  show "if playout_starts w data then
         (\<exists>session acts.
            data = Some session \<and>
            trace = Event (session_id session) (transaction_id session) json_start # acts @
                    [Event (session_id session) (transaction_id session)
                       (if w_exit_stop_playing w then json_stopped else json_ended)] \<and>
            payloads acts = [] \<and>
            payloads trace = [json_start, if w_exit_stop_playing w then json_stopped else json_ended])
       else trace = [] \<and> data' = data"
  proof (cases "playout_starts w data")
    case True
    then obtain session st acts afile vfile where
      data: "data = Some session"
      and l: "playout_loop (w_core w) afile vfile (aframes session) (vframes session) (w_ticks w)
               \<lparr>p_audio = 0, p_video = 0, asent = False, vsent = False,
                abefore = w_start w, vbefore = w_start w, p_buffer = replicate 1500 0,
                p_ctx = playback_start (rtpctx session)\<rparr> = Done (st, acts)"
      and tr: "trace = Event (session_id session) (transaction_id session) json_start # acts @
                 [Event (session_id session) (transaction_id session)
                    (if w_exit_stop_playing w then json_stopped else json_ended)]"
      using d
      by (auto simp: janus_play_playout_thread_def playout_starts_def Let_def
            split: option.splits if_splits run.splits)
    have "payloads acts = []" by (rule playout_loop_acts[OF l])
    moreover from this have "payloads trace = [json_start, if w_exit_stop_playing w then json_stopped else json_ended]"
      unfolding tr by simp
    ultimately show ?thesis using True data tr by auto
  next
    case False
    then show ?thesis using d
      by (auto simp: janus_play_playout_thread_def playout_starts_def split: option.splits if_splits)
  qed
next
  fix w :: world and data
  assume "\<not> playout_starts w data"
  then show "janus_play_playout_thread w data = Done (data, [])"
    by (auto simp: janus_play_playout_thread_def playout_starts_def split: option.splits if_splits)
next
  fix w :: world and data
  assume "\<exists>tk \<in> set (w_ticks w). stops tk"
  from playout_loop_stops[OF this]
  show "janus_play_playout_thread w data \<noteq> Running"
    by (auto simp: janus_play_playout_thread_def Let_def split: option.splits run.splits)
qed (simp_all add: json_start_def json_stopped_def json_ended_def)

lemma audio_run:
  "(case janus_play_playout_thread audio_world (Some audio_session) of
      Done (d, trace) \<Rightarrow> payloads trace = [json_start, json_ended] \<and> length trace = 7
    | _ \<Rightarrow> False)"
  by code_simp

lemma audio_starts: "playout_starts audio_world (Some audio_session)"
  by code_simp

theorem playout_events_witness:
  "playout_starts audio_world (Some audio_session) \<and>
   (\<exists>data' trace. janus_play_playout_thread audio_world (Some audio_session) = Done (data', trace) \<and>
      hd trace = Event 7 ''tx'' json_start \<and> last trace = Event 7 ''tx'' json_ended \<and>
      payloads trace = [json_start, json_ended]) \<and>
   janus_play_playout_thread audio_world None = Done (None, []) \<and>
   janus_play_playout_thread stopped_world (Some audio_session) \<noteq> Running"
proof -
  obtain d trace where run: "janus_play_playout_thread audio_world (Some audio_session) = Done (d, trace)"
    using audio_run by (auto split: run.splits)
  from playout_events [THEN conjunct1, rule_format, OF run] audio_starts
  obtain acts where tr: "trace = Event (session_id audio_session) (transaction_id audio_session) json_start # acts @
                 [Event (session_id audio_session) (transaction_id audio_session)
                    (if w_exit_stop_playing audio_world then json_stopped else json_ended)]"
    and pl: "payloads trace = [json_start, if w_exit_stop_playing audio_world then json_stopped else json_ended]"
    by auto
  have 1: "hd trace = Event 7 ''tx'' json_start" "last trace = Event 7 ''tx'' json_ended"
    "payloads trace = [json_start, json_ended]"
    using pl unfolding tr by (simp_all add: audio_session_def audio_world_def)
  have "\<not> playout_starts audio_world None"
    by (simp add: playout_starts_def)
  from playout_events [THEN conjunct2, THEN conjunct1, rule_format, OF this]
  have 2: "janus_play_playout_thread audio_world None = Done (None, [])" .
  have "\<exists>tk \<in> set (w_ticks stopped_world). stops tk"
    by (simp add: stopped_world_def stops_def tick_at_def)
  from playout_events [THEN conjunct2, THEN conjunct2, THEN conjunct1, rule_format, OF this]
  have 3: "janus_play_playout_thread stopped_world (Some audio_session) \<noteq> Running" .
  show ?thesis using audio_starts run 1 2 3 by blast
qed

text \<open>
  Claim C10 as stated fails on every run that reaches the loop: the payloads of the
  events are not the strings of the claim, which have no space behind the colon.
\<close>

theorem event_payloads_have_a_space:
  "(case janus_play_playout_thread audio_world (Some audio_session) of
      Done (d, trace) \<Rightarrow> payloads trace = [''{\"play\": \"start\"}'', ''{\"play\": \"ended\"}'']
    | _ \<Rightarrow> False) \<and>
   (case janus_play_playout_thread stopped_world (Some audio_session) of
      Done (d, trace) \<Rightarrow> payloads trace = [''{\"play\": \"start\"}'', ''{\"play\": \"stopped\"}'']
    | _ \<Rightarrow> False) \<and>
   ''{\"play\": \"start\"}'' \<noteq> ''{\"play\":\"start\"}'' \<and>
   ''{\"play\": \"ended\"}'' \<noteq> ''{\"play\":\"ended\"}'' \<and>
   ''{\"play\": \"stopped\"}'' \<noteq> ''{\"play\":\"stopped\"}''"
  by (intro conjI; code_simp)

text \<open>
  Where the update of the reference time is exact: a due interval below one second
  that does not bring \<open>tv_usec\<close> to exactly \<open>10^6\<close>.
\<close>

lemma advance_reference_within_second:
  assumes "0 \<le> tv_usec b" "tv_usec b < 1000000" "0 \<le> d" "d < 1000000" "tv_usec b + d \<noteq> 1000000"
  shows "micros (advance_reference b d) = micros b + d \<and>
         0 \<le> tv_usec (advance_reference b d) \<and> tv_usec (advance_reference b d) < 1000000"
proof -
  have "c_div d 1000000 = 0" using assms by (simp add: c_div_def)
  then show ?thesis using assms
    by (auto simp: advance_reference_def c_mod_def micros_def Let_def)
qed

text \<open>
  Claim C6. The second audio packet is due half a second after the first and the
  reference time is 10 s 500000 us: the loop sends it and leaves
  \<open>abefore = {10, 1000000}\<close>, since the carry is taken for \<open>tv_usec > 1000000\<close> only;
  \<open>tv_usec\<close> is not below \<open>10^6\<close>. And for a packet due a full second after its
  predecessor, the whole seconds are also subtracted from \<open>tv_usec\<close>: from
  \<open>{10, 0}\<close> the reference time becomes \<open>{11, -1}\<close>, 999999 us later and not
  1000000, with a negative \<open>tv_usec\<close>.
\<close>

theorem reference_time_not_carried:
  "(case playout_audio True reordered_file half_second_frames (tick_at 11 0) half_second_state of
      Some (st, acts) \<Rightarrow> p_audio st = 2 \<and> abefore st = \<lparr>tv_sec = 10, tv_usec = 1000000\<rparr>
    | None \<Rightarrow> False) \<and>
   due_interval (half_second_frames ! 1) (half_second_frames ! 0) 48 = 500000 \<and>
   advance_reference \<lparr>tv_sec = 10, tv_usec = 0\<rparr> 1000000 = \<lparr>tv_sec = 11, tv_usec = - 1\<rparr> \<and>
   micros \<lparr>tv_sec = 11, tv_usec = - 1\<rparr> = micros \<lparr>tv_sec = 10, tv_usec = 0\<rparr> + 999999"
  by (intro conjI; code_simp)

end
